theory Spec2Isabelle
  imports Complex_Main
begin

section \<open>Python values used by \<open>scripts/generate_model.py\<close>\<close>

text \<open>
  The script works on Python strings, Python integers and floating-point numbers.
  Integers are \<open>int\<close>, lengths are \<open>nat\<close>. A floating-point number is modelled as
  an exact \<open>real\<close>: rounding, overflow to infinity and NaN are outside this model, and
  so is the narrowing of a feature to 32 bits when it is stored in the array. The one
  exception is the entropy, which is modelled a second time with the rounding of
  double precision (\<open>calculate_entropy_double\<close>), because its exact value is the
  subject of a claim.
  A string is a \<open>char list\<close>; a \<open>char\<close> stands for a code point below 256, which
  covers every character the script compares against.

  Every exception the script can raise is a value: a function that may raise returns
  \<open>py_error + 'a\<close>, with \<open>Inl\<close> for the exception.
\<close>

datatype py_error = ZeroDivisionError | ValueError | IndexError

definition bind_result :: "py_error + 'a \<Rightarrow> ('a \<Rightarrow> py_error + 'b) \<Rightarrow> py_error + 'b" where
  "bind_result r f = (case r of Inl e \<Rightarrow> Inl e | Inr v \<Rightarrow> f v)"

subsection \<open>String methods\<close>

text \<open>\<open>startswith s p\<close> is \<open>s.startswith(p)\<close>.\<close>

fun startswith :: "'a list \<Rightarrow> 'a list \<Rightarrow> bool" where
  "startswith s [] = True"
| "startswith [] (p # ps) = False"
| "startswith (c # cs) (p # ps) = (c = p \<and> startswith cs ps)"

text \<open>\<open>contains sub s\<close> is \<open>sub in s\<close>: \<open>sub\<close> occurs in \<open>s\<close> as a substring.\<close>

fun contains :: "'a list \<Rightarrow> 'a list \<Rightarrow> bool" where
  "contains sub [] = (sub = [])"
| "contains sub (c # cs) = (startswith (c # cs) sub \<or> contains sub cs)"

text \<open>\<open>py_find s sub\<close> is \<open>s.find(sub)\<close>: the lowest index where \<open>sub\<close> starts, or -1.\<close>

fun find_index_of :: "'a list \<Rightarrow> 'a list \<Rightarrow> nat option" where
  "find_index_of [] sub = (if sub = [] then Some 0 else None)"
| "find_index_of (c # cs) sub =
     (if startswith (c # cs) sub then Some 0 else map_option Suc (find_index_of cs sub))"

definition py_find :: "'a list \<Rightarrow> 'a list \<Rightarrow> int" where
  "py_find s sub = (case find_index_of s sub of None \<Rightarrow> -1 | Some i \<Rightarrow> int i)"

text \<open>\<open>py_count s sub\<close> is \<open>s.count(sub)\<close>: the number of non-overlapping occurrences,
  scanning from the left. For an empty \<open>sub\<close> Python returns \<open>len(s) + 1\<close>.\<close>

fun py_count :: "'a list \<Rightarrow> 'a list \<Rightarrow> int" where
  "py_count s sub =
     (if sub = [] then int (length s) + 1
      else if s = [] then 0
      else if startswith s sub then 1 + py_count (drop (length sub) s) sub
      else py_count (tl s) sub)"

declare py_count.simps [simp del]

text \<open>\<open>py_replace s old new\<close> is \<open>s.replace(old, new)\<close>: every non-overlapping
  occurrence of \<open>old\<close>, scanning from the left, is replaced. For an empty \<open>old\<close> Python
  puts \<open>new\<close> before every character and at the end.\<close>

fun py_replace :: "'a list \<Rightarrow> 'a list \<Rightarrow> 'a list \<Rightarrow> 'a list" where
  "py_replace s old new =
     (if old = [] then new @ concat (map (\<lambda>c. c # new) s)
      else if s = [] then []
      else if startswith s old then new @ py_replace (drop (length old) s) old new
      else hd s # py_replace (tl s) old new)"

declare py_replace.simps [simp del]

text \<open>\<open>py_split s sep\<close> is \<open>s.split(sep)\<close> for a non-empty separator (the script only
  passes the one-character literals \<open>":"\<close>, \<open>"?"\<close> and \<open>"."\<close>). \<open>cur\<close> is the piece
  being collected.\<close>

fun split_from :: "'a list \<Rightarrow> 'a list \<Rightarrow> 'a list \<Rightarrow> 'a list list" where
  "split_from cur s sep =
     (if s = [] then [cur]
      else if sep \<noteq> [] \<and> startswith s sep then cur # split_from [] (drop (length sep) s) sep
      else split_from (cur @ [hd s]) (tl s) sep)"

declare split_from.simps [simp del]

definition py_split :: "'a list \<Rightarrow> 'a list \<Rightarrow> 'a list list" where
  "py_split s sep = split_from [] s sep"

text \<open>Slices \<open>s[:k]\<close> and \<open>s[k:]\<close>; a negative \<open>k\<close> counts from the end.\<close>

definition slice_index :: "'a list \<Rightarrow> int \<Rightarrow> nat" where
  "slice_index s k = nat (if k < 0 then max 0 (int (length s) + k) else k)"

definition slice_to :: "'a list \<Rightarrow> int \<Rightarrow> 'a list" where
  "slice_to s k = take (slice_index s k) s"

definition slice_from :: "'a list \<Rightarrow> int \<Rightarrow> 'a list" where
  "slice_from s k = drop (slice_index s k) s"

text \<open>Indexing \<open>xs[i]\<close>: a negative index counts from the end, and an index out of
  range raises \<open>IndexError\<close>.\<close>

definition item :: "'a list \<Rightarrow> int \<Rightarrow> py_error + 'a" where
  "item xs i =
     (if 0 \<le> i \<and> i < int (length xs) then Inr (xs ! nat i)
      else if i < 0 \<and> - int (length xs) \<le> i then Inr (xs ! nat (int (length xs) + i))
      else Inl IndexError)"

text \<open>\<open>isdigit s\<close> is \<open>s.isdigit()\<close>: the string is not empty and every character is a
  digit. Below code point 256 the digits of \<open>str.isdigit\<close> are \<open>0\<close> to \<open>9\<close> and the
  superscripts two, three and one (code points 178, 179 and 185).\<close>

definition is_decimal :: "char \<Rightarrow> bool" where
  "is_decimal c = (48 \<le> (of_char c :: nat) \<and> (of_char c :: nat) \<le> 57)"

definition is_digit_char :: "char \<Rightarrow> bool" where
  "is_digit_char c = (is_decimal c \<or> (of_char c :: nat) \<in> {178, 179, 185})"

definition isdigit :: "string \<Rightarrow> bool" where
  "isdigit s = (s \<noteq> [] \<and> list_all is_digit_char s)"

subsection \<open>The regular expression of the IP feature\<close>

text \<open>
  \<open>re.match(pattern, s)\<close> for the patterns the script needs: a sequence of items, each
  the anchor \<open>^\<close>, the anchor \<open>$\<close>, or an atom (\<open>\d\<close> or an escaped literal) repeated
  between \<open>m\<close> and \<open>n\<close> times. \<open>re.match\<close> matches at the start of the string and does
  not have to reach its end. Without flags, \<open>^\<close> matches only at the start of the
  string, \<open>$\<close> matches at the end of the string and just before a newline that ends
  the string, and \<open>\d\<close> matches a decimal digit (below code point 256: \<open>0\<close> to \<open>9\<close>).
\<close>

datatype atom = Digit | Lit char

datatype re_item = Bol | Eol | Rep atom nat nat

fun atom_ok :: "atom \<Rightarrow> char \<Rightarrow> bool" where
  "atom_ok Digit c = is_decimal c"
| "atom_ok (Lit a) c = (c = a)"

text \<open>The strings that can remain after \<open>a{m,n}\<close> has matched at the front of \<open>s\<close>,
  longest match first.\<close>

fun rep_match :: "atom \<Rightarrow> nat \<Rightarrow> nat \<Rightarrow> string \<Rightarrow> string list" where
  "rep_match a m 0 s = (if m = 0 then [s] else [])"
| "rep_match a m (Suc n) [] = (if m = 0 then [[]] else [])"
| "rep_match a m (Suc n) (c # cs) =
     (if atom_ok a c then rep_match a (m - 1) n cs else []) @ (if m = 0 then [c # cs] else [])"

text \<open>\<open>at_start\<close> holds while nothing has been consumed.\<close>

fun items_match :: "re_item list \<Rightarrow> bool \<Rightarrow> string \<Rightarrow> bool" where
  "items_match [] at_start s = True"
| "items_match (Bol # r) at_start s = (at_start \<and> items_match r at_start s)"
| "items_match (Eol # r) at_start s = ((s = [] \<or> s = [CHR 0x0A]) \<and> items_match r at_start s)"
| "items_match (Rep a m n # r) at_start s =
     list_ex (\<lambda>s'. items_match r (at_start \<and> length s' = length s) s') (rep_match a m n s)"

definition re_match :: "re_item list \<Rightarrow> string \<Rightarrow> bool" where
  "re_match pattern s = items_match pattern True s"

text \<open>\<open>ip_pattern\<close> is \<open>r"^\d{1,3}\.\d{1,3}\.\d{1,3}\.\d{1,3}$"\<close>.\<close>

definition ip_pattern :: "re_item list" where
  "ip_pattern =
     [Bol, Rep Digit 1 3, Rep (Lit CHR ''.'') 1 1, Rep Digit 1 3, Rep (Lit CHR ''.'') 1 1,
      Rep Digit 1 3, Rep (Lit CHR ''.'') 1 1, Rep Digit 1 3, Eol]"

section \<open>Entropy\<close>

text \<open>
  The dictionary \<open>freq\<close> is an association list in insertion order, as a Python
  dictionary keeps it: \<open>dict_set\<close> overwrites the value of a key in place and puts a new
  key at the end; \<open>dict_get d k v\<close> is \<open>d.get(k, v)\<close>.
\<close>

fun dict_get :: "('k \<times> 'v) list \<Rightarrow> 'k \<Rightarrow> 'v \<Rightarrow> 'v" where
  "dict_get [] k v = v"
| "dict_get ((k', v') # d) k v = (if k' = k then v' else dict_get d k v)"

fun dict_set :: "('k \<times> 'v) list \<Rightarrow> 'k \<Rightarrow> 'v \<Rightarrow> ('k \<times> 'v) list" where
  "dict_set [] k v = [(k, v)]"
| "dict_set ((k', v') # d) k v = (if k' = k then (k, v) # d else (k', v') # dict_set d k v)"

definition dict_values :: "('k \<times> 'v) list \<Rightarrow> 'v list" where
  "dict_values d = map snd d"

text \<open>The first loop of \<open>calculate_entropy\<close>: \<open>freq[char] = freq.get(char, 0) + 1\<close>.\<close>

fun count_chars :: "(char \<times> int) list \<Rightarrow> string \<Rightarrow> (char \<times> int) list" where
  "count_chars freq [] = freq"
| "count_chars freq (c # text) = count_chars (dict_set freq c (dict_get freq c 0 + 1)) text"

text \<open>The second loop: \<open>p = count / length\<close> raises \<open>ZeroDivisionError\<close> when \<open>length\<close>
  is 0, and \<open>log2(p)\<close> raises \<open>ValueError\<close> when \<open>p\<close> is not positive.\<close>

fun entropy_loop :: "int list \<Rightarrow> int \<Rightarrow> real \<Rightarrow> py_error + real" where
  "entropy_loop [] len entropy = Inr entropy"
| "entropy_loop (count # counts) len entropy =
     (if len = 0 then Inl ZeroDivisionError
      else let p = real_of_int count / real_of_int len
           in if p \<le> 0 then Inl ValueError
              else entropy_loop counts len (entropy - p * log 2 p))"

definition calculate_entropy :: "string \<Rightarrow> py_error + real" where
  "calculate_entropy text =
     (if text = [] then Inr 0
      else entropy_loop (dict_values (count_chars [] text)) (int (length text)) 0)"

section \<open>Entropy in double precision\<close>

text \<open>
  A Python float is an IEEE 754 double: a sign, a significand of 53 bits and a binary
  exponent. \<open>round_double x\<close> is the double nearest to the real number \<open>x\<close>, a tie
  going to the even significand. It covers zero and the normal range (no overflow to
  infinity and no subnormal numbers), which the entropy never leaves: a probability is
  at least 1 over the length of the string.
\<close>

definition round_half_even :: "real \<Rightarrow> int" where
  "round_half_even x =
     (let f = \<lfloor>x\<rfloor>; r = x - real_of_int f
      in if r < 1 / 2 then f else if 1 / 2 < r then f + 1 else if even f then f else f + 1)"

text \<open>\<open>e\<close> is the exponent of the unit in the last place of \<open>x\<close>.\<close>

definition round_double :: "real \<Rightarrow> real" where
  "round_double x =
     (if x = 0 then 0
      else let e = \<lfloor>log 2 \<bar>x\<bar>\<rfloor> - 52
           in real_of_int (round_half_even (x / 2 powr real_of_int e)) * 2 powr real_of_int e)"

text \<open>\<open>math.log2\<close> is taken as correctly rounded. The C library it calls promises
  an error below one unit in the last place; at powers of two and at the arguments of
  the theorems below the libraries in common use return the correctly rounded value.\<close>

definition double_log2 :: "real \<Rightarrow> real" where
  "double_log2 x = round_double (log 2 x)"

text \<open>
  \<open>calculate_entropy\<close> in the arithmetic of the script: the true division of two
  integers, the product, the logarithm and the subtraction each return the rounded
  exact result. The loops, the dictionary and the exceptions are those of
  \<open>calculate_entropy\<close> above.
\<close>

fun entropy_loop_double :: "int list \<Rightarrow> int \<Rightarrow> real \<Rightarrow> py_error + real" where
  "entropy_loop_double [] len entropy = Inr entropy"
| "entropy_loop_double (count # counts) len entropy =
     (if len = 0 then Inl ZeroDivisionError
      else let p = round_double (real_of_int count / real_of_int len)
           in if p \<le> 0 then Inl ValueError
              else entropy_loop_double counts len
                     (round_double (entropy - round_double (p * double_log2 p))))"

definition calculate_entropy_double :: "string \<Rightarrow> py_error + real" where
  "calculate_entropy_double text =
     (if text = [] then Inr 0
      else entropy_loop_double (dict_values (count_chars [] text)) (int (length text)) 0)"

section \<open>Feature extraction\<close>

text \<open>The local variables of \<open>extract_features\<close>, each as a function of \<open>url\<close>.\<close>

definition protocol :: "string \<Rightarrow> string" where
  "protocol url = (if startswith url ''https://'' then ''https'' else ''http'')"

definition clean_url :: "string \<Rightarrow> string" where
  "clean_url url = py_replace (py_replace url ''https://'' []) ''http://'' []"

definition host_end :: "string \<Rightarrow> int" where
  "host_end url =
     min (if contains ''/'' (clean_url url) then py_find (clean_url url) ''/''
          else int (length (clean_url url)))
         (if contains ''?'' (clean_url url) then py_find (clean_url url) ''?''
          else int (length (clean_url url)))"

definition host :: "string \<Rightarrow> string" where
  "host url = slice_to (clean_url url) (host_end url)"

definition path_and_query :: "string \<Rightarrow> string" where
  "path_and_query url = slice_from (clean_url url) (host_end url)"

definition path :: "string \<Rightarrow> py_error + string" where
  "path url =
     (if contains ''?'' (path_and_query url) then item (py_split (path_and_query url) ''?'') 0
      else Inr (path_and_query url))"

definition subdomain_count :: "string \<Rightarrow> int" where
  "subdomain_count url = max (py_count (host url) ''.'' - 1) 0"

definition query_count :: "string \<Rightarrow> int" where
  "query_count url =
     py_count (path_and_query url) ''&'' + (if contains ''?'' (path_and_query url) then 1 else 0)"

definition has_port :: "string \<Rightarrow> py_error + bool" where
  "has_port url =
     (if contains '':'' (host url)
      then bind_result (item (py_split (host url) '':'') (-1)) (\<lambda>suffix. Inr (isdigit suffix))
      else Inr False)"

definition shorteners :: "string list" where
  "shorteners = [''bit.ly'', ''tinyurl.com'', ''t.co'', ''goo.gl'', ''ow.ly'']"

definition suspicious_tlds :: "string list" where
  "suspicious_tlds = [''tk'', ''ml'', ''ga'', ''cf'', ''gq'', ''xyz'', ''icu'', ''top'']"

definition tld :: "string \<Rightarrow> py_error + string" where
  "tld url =
     (if contains ''.'' (host url) then item (py_split (host url) ''.'') (-1) else Inr [])"

text \<open>
  \<open>extract_features\<close>: the array starts as 15 zeros and is filled entry by entry, in
  the order of the script. An exception raised on the way ends the function.
\<close>

definition extract_features :: "string \<Rightarrow> py_error + real list" where
  "extract_features url =
     bind_result (path url) (\<lambda>path.
     let features = replicate 15 (0::real);
         features = features[0 := min (real (length url) / 500) 1];
         features = features[1 := min (real (length (host url)) / 100) 1];
         features = features[2 := min (real (length path) / 200) 1];
         features = features[3 := min (real_of_int (subdomain_count url) / 5) 1];
         features = features[4 := (if protocol url = ''https'' then 1 else 0)]
     in
     bind_result (item (py_split (host url) '':'') 0) (\<lambda>ip_candidate.
     let features = features[5 := (if re_match ip_pattern ip_candidate then 1 else 0)] in
     bind_result (calculate_entropy (host url)) (\<lambda>host_entropy.
     let features = features[6 := min (host_entropy / 5) 1] in
     bind_result (calculate_entropy path) (\<lambda>path_entropy.
     let features = features[7 := min (path_entropy / 5) 1];
         features = features[8 := min (real_of_int (query_count url) / 10) 1];
         features = features[9 := (if contains ''@'' url then 1 else 0)];
         features = features[10 := min (real_of_int (py_count url ''.'') / 10) 1];
         features = features[11 := min (real_of_int (py_count url ''-'') / 10) 1]
     in
     bind_result (has_port url) (\<lambda>has_port.
     let features = features[12 := (if has_port then 1 else 0)];
         features = features[13 := (if list_ex (\<lambda>s. contains s (host url)) shorteners then 1 else 0)]
     in
     bind_result (tld url) (\<lambda>tld.
     let features = features[14 := (if tld \<in> set suspicious_tlds then 1 else 0)]
     in Inr features))))))"

text \<open>\<open>feature url i\<close> is \<open>extract_features(url)[i]\<close>.\<close>

definition feature :: "string \<Rightarrow> int \<Rightarrow> py_error + real" where
  "feature url i = bind_result (extract_features url) (\<lambda>features. item features i)"

section \<open>The classifier\<close>

text \<open>
  A one-dimensional array is a list of reals. A two-dimensional array has a shape
  \<open>(number of rows, number of columns)\<close> and rows of equal length, also when it has
  no row: \<open>ncols\<close> is kept beside the rows, and \<open>rectangular\<close> says that every row
  has that length, which holds of every array.
\<close>

record ndarray2 =
  ncols :: nat
  rows :: "real list list"

definition rectangular :: "ndarray2 \<Rightarrow> bool" where
  "rectangular X = list_all (\<lambda>r. length r = ncols X) (rows X)"

definition shape :: "ndarray2 \<Rightarrow> nat \<times> nat" where
  "shape X = (length (rows X), ncols X)"

text \<open>\<open>X.T\<close>.\<close>

definition transpose_array :: "ndarray2 \<Rightarrow> ndarray2" where
  "transpose_array X =
     \<lparr>ncols = length (rows X), rows = map (\<lambda>j. map (\<lambda>r. r ! j) (rows X)) [0..<ncols X]\<rparr>"

definition dot :: "real list \<Rightarrow> real list \<Rightarrow> real" where
  "dot a b = sum_list (map2 (*) a b)"

text \<open>\<open>np.dot\<close> of two vectors, and of a matrix and a vector: the lengths along the
  summed axis must agree, or numpy raises \<open>ValueError\<close> (shapes not aligned).\<close>

definition np_dot_vv :: "real list \<Rightarrow> real list \<Rightarrow> py_error + real" where
  "np_dot_vv a b = (if length a = length b then Inr (dot a b) else Inl ValueError)"

definition np_dot_mv :: "ndarray2 \<Rightarrow> real list \<Rightarrow> py_error + real list" where
  "np_dot_mv X v =
     (if ncols X = length v then Inr (map (\<lambda>r. dot r v) (rows X)) else Inl ValueError)"

text \<open>\<open>a - b\<close> on one-dimensional arrays, with numpy's broadcasting: equal lengths
  subtract entry by entry, an array of length 1 is stretched to the other's length, and
  any other pair of lengths raises \<open>ValueError\<close>.\<close>

definition np_sub :: "real list \<Rightarrow> real list \<Rightarrow> py_error + real list" where
  "np_sub a b =
     (if length a = length b then Inr (map2 (-) a b)
      else if length b = 1 then Inr (map (\<lambda>x. x - hd b) a)
      else if length a = 1 then Inr (map (\<lambda>y. hd a - y) b)
      else Inl ValueError)"

text \<open>\<open>a -= b\<close> in place: \<open>b\<close> must have the length of \<open>a\<close>, or length 1.\<close>

definition np_isub :: "real list \<Rightarrow> real list \<Rightarrow> py_error + real list" where
  "np_isub a b =
     (if length a = length b then Inr (map2 (-) a b)
      else if length b = 1 then Inr (map (\<lambda>x. x - hd b) a)
      else Inl ValueError)"

text \<open>\<open>1 / n\<close> on Python integers: true division, \<open>ZeroDivisionError\<close> for \<open>n = 0\<close>.\<close>

definition true_div :: "int \<Rightarrow> int \<Rightarrow> py_error + real" where
  "true_div a b = (if b = 0 then Inl ZeroDivisionError else Inr (real_of_int a / real_of_int b))"

definition sigmoid :: "real \<Rightarrow> real" where
  "sigmoid x = 1 / (1 + exp (- x))"

record model =
  weights :: "real list"
  bias :: real

text \<open>\<open>__init__(weights=None, bias=0.0)\<close>.\<close>

definition init_model :: "real list option \<Rightarrow> real \<Rightarrow> model" where
  "init_model w b =
     \<lparr>weights = (case w of Some ws \<Rightarrow> ws | None \<Rightarrow> replicate 15 0), bias = b\<rparr>"

text \<open>\<open>predict\<close> returns its result together with the model it leaves behind.\<close>

definition predict :: "model \<Rightarrow> real list \<Rightarrow> (py_error + real) \<times> model" where
  "predict self features =
     (bind_result (np_dot_vv (weights self) features) (\<lambda>d.
        let z = d + bias self in Inr (sigmoid z)),
      self)"

text \<open>
  One pass of the loop body of \<open>fit\<close>. Python evaluates the operands of \<open>*\<close> from left
  to right, so \<open>1 / n_samples\<close> is computed before \<open>predictions - y\<close> in both gradient
  lines.
\<close>

definition fit_epoch :: "ndarray2 \<Rightarrow> real list \<Rightarrow> real \<Rightarrow> model \<Rightarrow> py_error + model" where
  "fit_epoch X y lr self =
     (let (n_samples, n_features) = shape X in
      bind_result (np_dot_mv X (weights self)) (\<lambda>xw.
      let z = map (\<lambda>v. v + bias self) xw;
          predictions = map sigmoid z
      in
      bind_result (true_div 1 (int n_samples)) (\<lambda>inv_n.
      bind_result (np_sub predictions y) (\<lambda>err.
      bind_result (np_dot_mv (transpose_array X) err) (\<lambda>xte.
      let dw = map (\<lambda>g. inv_n * g) xte in
      bind_result (true_div 1 (int n_samples)) (\<lambda>inv_n'.
      bind_result (np_sub predictions y) (\<lambda>err'.
      let db = inv_n' * sum_list err' in
      bind_result (np_isub (weights self) (map (\<lambda>g. lr * g) dw)) (\<lambda>w'.
      Inr \<lparr>weights = w', bias = bias self - lr * db\<rparr>))))))))"

text \<open>\<open>for _ in range(epochs)\<close>: \<open>k\<close> passes, stopping at the first exception.\<close>

fun fit_loop :: "nat \<Rightarrow> ndarray2 \<Rightarrow> real list \<Rightarrow> real \<Rightarrow> model \<Rightarrow> py_error + model" where
  "fit_loop 0 X y lr self = Inr self"
| "fit_loop (Suc k) X y lr self = bind_result (fit_epoch X y lr self) (fit_loop k X y lr)"

text \<open>\<open>range(epochs)\<close> is empty for \<open>epochs \<le> 0\<close>.\<close>

definition fit :: "model \<Rightarrow> ndarray2 \<Rightarrow> real list \<Rightarrow> int \<Rightarrow> real \<Rightarrow> py_error + model" where
  "fit self X y epochs lr =
     (let (n_samples, n_features) = shape X;
          self = self\<lparr>weights := replicate n_features 0\<rparr>;
          self = self\<lparr>bias := 0\<rparr>
      in fit_loop (nat epochs) X y lr self)"

text \<open>\<open>to_json\<close>: a dictionary with the keys \<open>weights\<close> and \<open>bias\<close>, in this order.\<close>

datatype json = JNumber real | JList "json list"

definition to_json :: "model \<Rightarrow> (string \<times> json) list" where
  "to_json self =
     [(''weights'', JList (map JNumber (weights self))), (''bias'', JNumber (bias self))]"

section \<open>Statements of the specification\<close>

text \<open>
  The definitions of this section follow the words of the specification, not the
  script; the theorems below compare the script with them.
\<close>

text \<open>Stripping one leading \<open>https://\<close> or \<open>http://\<close>, but not both.\<close>

definition strip_scheme_prefix_spec :: "string \<Rightarrow> string" where
  "strip_scheme_prefix_spec url =
     (if startswith url ''https://'' then drop 8 url
      else if startswith url ''http://'' then drop 7 url
      else url)"

text \<open>The host with a trailing \<open>:port\<close> stripped, the port being the part after the
  last colon.\<close>

definition strip_trailing_port_spec :: "string \<Rightarrow> string" where
  "strip_trailing_port_spec h =
     (if CHR '':'' \<in> set h then rev (tl (dropWhile (\<lambda>c. c \<noteq> CHR '':'') (rev h))) else h)"

text \<open>
  One iteration of full-batch gradient descent, by the six steps of the specification,
  for \<open>n\<close> samples and \<open>f\<close> features.
\<close>

definition gd_step_spec :: "ndarray2 \<Rightarrow> real list \<Rightarrow> real \<Rightarrow> model \<Rightarrow> model" where
  "gd_step_spec X y lr m =
     (let n = length (rows X); f = ncols X;
          z = (\<lambda>i. (\<Sum>j<f. rows X ! i ! j * weights m ! j) + bias m);
          predictions = (\<lambda>i. 1 / (1 + exp (- z i)));
          error = (\<lambda>i. predictions i - y ! i);
          dw = (\<lambda>j. (1 / real n) * (\<Sum>i<n. rows X ! i ! j * error i));
          db = (1 / real n) * (\<Sum>i<n. error i)
      in \<lparr>weights = map (\<lambda>j. weights m ! j - lr * dw j) [0..<f], bias = bias m - lr * db\<rparr>)"

text \<open>Modelled from the spec: the import of an exported record, which the script
  does not have (the record is read by the external scoring runtime). The field
  \<open>weights\<close> is read as a list of numbers and the field \<open>bias\<close> as a number, and the
  model is built from them by the constructor of the script.\<close>

fun json_number :: "json \<Rightarrow> real option" where
  "json_number (JNumber x) = Some x"
| "json_number (JList xs) = None"

fun json_numbers :: "json \<Rightarrow> real list option" where
  "json_numbers (JNumber x) = None"
| "json_numbers (JList xs) =
     (if list_all (\<lambda>v. json_number v \<noteq> None) xs then Some (map (\<lambda>v. the (json_number v)) xs)
      else None)"

definition read_model_spec :: "(string \<times> json) list \<Rightarrow> model option" where
  "read_model_spec d =
     (case (map_of d ''weights'', map_of d ''bias'') of
        (Some w, Some b) \<Rightarrow>
          (case (json_numbers w, json_number b) of
             (Some ws, Some x) \<Rightarrow> Some (init_model (Some ws) x)
           | _ \<Rightarrow> None)
      | _ \<Rightarrow> None)"

section \<open>Proof-only abbreviations\<close>

text \<open>One summand \<open>p * log2(p)\<close> of the entropy, for a count \<open>c\<close> out of \<open>len\<close>.\<close>

definition entropy_term :: "int \<Rightarrow> int \<Rightarrow> real" where
  "entropy_term len c =
     (real_of_int c / real_of_int len) * log 2 (real_of_int c / real_of_int len)"

text \<open>The array of features, from the values the function has computed on the way:
  the path \<open>p\<close>, the two entropies, the port flag and the top-level domain.\<close>

definition feature_list :: "string \<Rightarrow> string \<Rightarrow> real \<Rightarrow> real \<Rightarrow> bool \<Rightarrow> string \<Rightarrow> real list" where
  "feature_list url p e6 e7 hp t =
     [min (real (length url) / 500) 1,
      min (real (length (host url)) / 100) 1,
      min (real (length p) / 200) 1,
      min (real_of_int (subdomain_count url) / 5) 1,
      (if protocol url = ''https'' then 1 else 0),
      (if re_match ip_pattern (hd (py_split (host url) '':'')) then 1 else 0),
      min (e6 / 5) 1,
      min (e7 / 5) 1,
      min (real_of_int (query_count url) / 10) 1,
      (if contains ''@'' url then 1 else 0),
      min (real_of_int (py_count url ''.'') / 10) 1,
      min (real_of_int (py_count url ''-'') / 10) 1,
      (if hp then 1 else 0),
      (if list_ex (\<lambda>s. contains s (host url)) shorteners then 1 else 0),
      (if t \<in> set suspicious_tlds then 1 else 0)]"

text \<open>
  The Taylor polynomial of the exponential in Horner form, with \<open>r\<close> in place of the
  innermost 1, and the same evaluation on integers scaled by \<open>D\<close>, each division
  rounded up (\<open>horner_up\<close>) or down (\<open>horner_down\<close>).
\<close>

fun horner :: "nat \<Rightarrow> nat \<Rightarrow> real \<Rightarrow> real \<Rightarrow> real" where
  "horner k 0 x r = r"
| "horner k (Suc n) x r = 1 + x / real (Suc k) * horner (Suc k) n x r"

fun horner_up :: "nat \<Rightarrow> nat \<Rightarrow> int \<Rightarrow> int \<Rightarrow> int \<Rightarrow> int" where
  "horner_up k 0 D X R = R"
| "horner_up k (Suc n) D X R = D + (X * horner_up (Suc k) n D X R) div (int (Suc k) * D) + 1"

fun horner_down :: "nat \<Rightarrow> nat \<Rightarrow> int \<Rightarrow> int \<Rightarrow> int \<Rightarrow> int" where
  "horner_down k 0 D X R = R"
| "horner_down k (Suc n) D X R = D + (X * horner_down (Suc k) n D X R) div (int (Suc k) * D)"

section \<open>String methods: basic facts\<close>

lemma startswith_iff: "startswith s p \<longleftrightarrow> take (length p) s = p \<and> length p \<le> length s"
  by (induction s p rule: startswith.induct) auto

lemma split_from_nonempty: "split_from cur s sep \<noteq> []"
  by (induction cur s sep rule: split_from.induct) (subst split_from.simps, simp)

lemma py_split_nonempty: "py_split s sep \<noteq> []"
  by (simp add: py_split_def split_from_nonempty)

lemma item_first: "xs \<noteq> [] \<Longrightarrow> item xs 0 = Inr (hd xs)"
  by (cases xs) (simp_all add: item_def)

lemma item_last: "xs \<noteq> [] \<Longrightarrow> item xs (-1) = Inr (last xs)"
proof -
  assume ne: "xs \<noteq> []"
  then have len: "0 < length xs" by simp
  have j: "nat (int (length xs) + - 1) = length xs - 1" by arith
  have low: "- int (length xs) \<le> - 1" using len by arith
  have "item xs (-1) = Inr (xs ! (length xs - 1))"
    unfolding item_def using low j by simp
  then show ?thesis using ne by (simp add: last_conv_nth)
qed

lemma py_count_nonneg: "0 \<le> py_count s sub"
  by (induction s sub rule: py_count.induct) (subst py_count.simps, simp)

subsection \<open>The frequency dictionary\<close>

lemma dict_get_dict_set:
  "dict_get (dict_set d k v) k' x = (if k' = k then v else dict_get d k' x)"
  by (induction d) auto

lemma keys_dict_set:
  "map fst (dict_set d k v) = (if k \<in> set (map fst d) then map fst d else map fst d @ [k])"
  by (induction d) (fastforce simp: image_iff)+

lemma distinct_dict_set: "distinct (map fst d) \<Longrightarrow> distinct (map fst (dict_set d k v))"
  by (simp only: keys_dict_set split: if_split) simp

lemma dict_get_member:
  "distinct (map fst d) \<Longrightarrow> (k, v) \<in> set d \<Longrightarrow> dict_get d k x = v"
proof (induction d)
  case Nil
  then show ?case by simp
next
  case (Cons a d)
  obtain k' v' where a: "a = (k', v')" by (cases a)
  show ?case
  proof (cases "k' = k")
    case True
    have "k \<notin> fst ` set d" using Cons.prems(1) a True by simp
    then have "(k, v) \<notin> set d" by (metis fst_conv image_eqI)
    then show ?thesis using Cons.prems(2) a True by simp
  next
    case False
    then show ?thesis using Cons a by simp
  qed
qed

lemma keys_count_chars: "set (map fst (count_chars d s)) = set (map fst d) \<union> set s"
proof (induction s arbitrary: d)
  case Nil
  then show ?case by simp
next
  case (Cons c s)
  have "set (map fst (dict_set d c (dict_get d c 0 + 1))) = insert c (set (map fst d))"
    by (simp only: keys_dict_set split: if_split) auto
  then show ?case using Cons.IH [of "dict_set d c (dict_get d c 0 + 1)"] by simp
qed

lemma distinct_count_chars:
  "distinct (map fst d) \<Longrightarrow> distinct (map fst (count_chars d s))"
  by (induction s arbitrary: d) (simp_all add: distinct_dict_set)

lemma dict_get_count_chars:
  "dict_get (count_chars d s) k 0 = dict_get d k 0 + int (count_list s k)"
  by (induction s arbitrary: d) (simp_all add: dict_get_dict_set)

lemma count_chars_entry:
  assumes "(k, v) \<in> set (count_chars [] s)"
  shows "k \<in> set s \<and> v = int (count_list s k)"
proof -
  have d: "distinct (map fst (count_chars [] s))"
    by (rule distinct_count_chars) simp
  have "k \<in> set (map fst (count_chars [] s))"
    using assms by (simp add: rev_image_eqI)
  then have k: "k \<in> set s" by (simp only: keys_count_chars) simp
  have "dict_get (count_chars [] s) k 0 = v"
    using d assms by (rule dict_get_member)
  then show ?thesis using k by (simp add: dict_get_count_chars)
qed

lemma count_chars_values:
  assumes "c \<in> set (dict_values (count_chars [] s))"
  shows "\<exists>k\<in>set s. c = int (count_list s k)"
proof -
  from assms obtain k where "(k, c) \<in> set (count_chars [] s)"
    by (auto simp: dict_values_def)
  then show ?thesis using count_chars_entry by blast
qed

lemma count_chars_values_bounds:
  assumes "c \<in> set (dict_values (count_chars [] s))"
  shows "0 < c \<and> c \<le> int (length s)"
proof -
  from count_chars_values [OF assms] obtain k
    where k: "k \<in> set s" and c: "c = int (count_list s k)" by blast
  have "count_list s k \<noteq> 0" using k by (simp add: count_list_0_iff)
  moreover have "count_list s k \<le> length s" by (rule count_le_length)
  ultimately show ?thesis using c by simp
qed

lemma length_count_chars_values: "length (dict_values (count_chars [] s)) = card (set s)"
proof -
  have "distinct (map fst (count_chars [] s))"
    by (rule distinct_count_chars) simp
  then have "card (set (map fst (count_chars [] s))) = length (map fst (count_chars [] s))"
    by (rule distinct_card)
  then show ?thesis by (simp only: keys_count_chars dict_values_def) simp
qed

subsection \<open>The entropy loop\<close>

lemma entropy_loop_eq:
  "0 < len \<Longrightarrow> \<forall>c\<in>set counts. 0 < c \<Longrightarrow>
   entropy_loop counts len acc = Inr (acc - (\<Sum>c\<leftarrow>counts. entropy_term len c))"
proof (induction counts arbitrary: acc)
  case Nil
  then show ?case by simp
next
  case (Cons c counts)
  have len: "len \<noteq> 0" using Cons.prems by simp
  have np: "\<not> real_of_int c / real_of_int len \<le> 0"
    using Cons.prems by (simp add: not_le divide_pos_pos)
  have "entropy_loop (c # counts) len acc =
        entropy_loop counts len (acc - entropy_term len c)"
    by (simp only: entropy_loop.simps Let_def entropy_term_def np len if_False)
  also have "\<dots> = Inr (acc - entropy_term len c - (\<Sum>c\<leftarrow>counts. entropy_term len c))"
    using Cons.prems by (intro Cons.IH) simp_all
  finally show ?case by (simp add: algebra_simps)
qed

lemma entropy_term_nonpos: "0 < c \<Longrightarrow> c \<le> len \<Longrightarrow> entropy_term len c \<le> 0"
proof -
  assume c: "0 < c" "c \<le> len"
  let ?p = "real_of_int c / real_of_int len"
  have p: "0 < ?p" "?p \<le> 1" using c by (auto simp: divide_pos_pos)
  then have "log 2 ?p \<le> 0" by simp
  with p show ?thesis unfolding entropy_term_def by (intro mult_nonneg_nonpos) simp_all
qed

lemma calculate_entropy_eq:
  assumes "s \<noteq> []"
  shows "calculate_entropy s =
         Inr (- (\<Sum>c\<leftarrow>dict_values (count_chars [] s). entropy_term (int (length s)) c))"
proof -
  have "0 < int (length s)" using assms by simp
  moreover have "\<forall>c\<in>set (dict_values (count_chars [] s)). 0 < c"
    using count_chars_values_bounds by blast
  ultimately have "entropy_loop (dict_values (count_chars [] s)) (int (length s)) 0 =
      Inr (0 - (\<Sum>c\<leftarrow>dict_values (count_chars [] s). entropy_term (int (length s)) c))"
    by (rule entropy_loop_eq)
  then show ?thesis using assms by (simp add: calculate_entropy_def)
qed

lemma calculate_entropy_Inr: "\<exists>e. calculate_entropy s = Inr e \<and> 0 \<le> e"
proof (cases "s = []")
  case True
  then show ?thesis by (simp add: calculate_entropy_def)
next
  case False
  have "(\<Sum>c\<leftarrow>dict_values (count_chars [] s). entropy_term (int (length s)) c) \<le> 0"
    using count_chars_values_bounds [of _ s]
    by (intro sum_list_nonpos) (auto intro: entropy_term_nonpos)
  then show ?thesis using calculate_entropy_eq [OF False] by simp
qed

lemma entropy_term_uniform:
  assumes "0 < m" "0 < k"
  shows "entropy_term (int (k * m)) (int m) = - (inverse (real k) * log 2 (real k))"
proof -
  have "real m / (real k * real m) = inverse (real k)"
    using assms by (simp add: divide_simps)
  then have p: "real_of_int (int m) / real_of_int (int (k * m)) = inverse (real k)"
    by simp
  show ?thesis
    unfolding entropy_term_def p using assms(2) by (simp add: log_inverse)
qed

lemma sum_list_map_replicate:
  "(\<Sum>c\<leftarrow>replicate k v. f c) = real k * (f v :: real)"
  by (induction k) (simp_all add: algebra_simps)

lemma calculate_entropy_equal_counts:
  assumes ne: "s \<noteq> []"
    and eq: "\<forall>a\<in>set s. \<forall>b\<in>set s. count_list s a = count_list s b"
  shows "calculate_entropy s = Inr (log 2 (real (card (set s))))"
proof -
  define k where "k = card (set s)"
  define m where "m = count_list s (hd s)"
  have hd: "hd s \<in> set s" using ne by simp
  have "count_list s (hd s) \<noteq> 0" using hd by (simp add: count_list_0_iff)
  then have m_pos: "0 < m" by (simp add: m_def)
  have k_pos: "0 < k" using ne by (simp add: k_def card_gt_0_iff)
  have all_m: "count_list s a = m" if "a \<in> set s" for a
    using eq hd that unfolding m_def by blast
  have "sum (count_list s) (set s) = length s"
    by (rule sum_count_set) simp_all
  moreover have "sum (count_list s) (set s) = sum (\<lambda>a. m) (set s)"
    by (rule sum.cong) (simp_all add: all_m)
  ultimately have len: "length s = k * m" by (simp add: k_def)
  have "\<forall>c\<in>set (dict_values (count_chars [] s)). c = int m"
  proof
    fix c assume "c \<in> set (dict_values (count_chars [] s))"
    from count_chars_values [OF this] obtain a
      where "a \<in> set s" "c = int (count_list s a)" by blast
    then show "c = int m" by (simp add: all_m)
  qed
  then have "replicate (length (dict_values (count_chars [] s))) (int m) =
      dict_values (count_chars [] s)"
    by (rule replicate_length_same)
  then have vals: "dict_values (count_chars [] s) = replicate k (int m)"
    by (simp only: length_count_chars_values k_def)
  have "calculate_entropy s =
      Inr (- (\<Sum>c\<leftarrow>replicate k (int m). entropy_term (int (k * m)) c))"
    using calculate_entropy_eq [OF ne] by (simp only: vals len)
  also have "\<dots> = Inr (- (real k * entropy_term (int (k * m)) (int m)))"
    by (simp only: sum_list_map_replicate)
  also have "\<dots> = Inr (- (real k * - (inverse (real k) * log 2 (real k))))"
    by (simp only: entropy_term_uniform [OF m_pos k_pos])
  also have "\<dots> = Inr (log 2 (real k))"
    using k_pos by simp
  finally show ?thesis by (simp only: k_def)
qed

section \<open>Feature extraction: the result\<close>

lemma path_Inr: "\<exists>p. path url = Inr p"
  by (simp add: path_def item_first py_split_nonempty)

lemma has_port_Inr: "\<exists>b. has_port url = Inr b"
  by (cases "contains '':'' (host url)")
     (auto simp: has_port_def item_last py_split_nonempty bind_result_def)

lemma tld_Inr: "\<exists>t. tld url = Inr t"
  by (simp add: tld_def item_last py_split_nonempty)

text \<open>The array that \<open>extract_features\<close> returns, entry by entry.\<close>

lemma extract_features_result:
  "\<exists>p e6 e7 hp t.
     path url = Inr p \<and> calculate_entropy (host url) = Inr e6 \<and> 0 \<le> e6 \<and>
     calculate_entropy p = Inr e7 \<and> 0 \<le> e7 \<and> has_port url = Inr hp \<and> tld url = Inr t \<and>
     extract_features url = Inr (feature_list url p e6 e7 hp t)"
proof -
  obtain p where p: "path url = Inr p" using path_Inr by blast
  obtain e6 where e6: "calculate_entropy (host url) = Inr e6" "0 \<le> e6"
    using calculate_entropy_Inr by blast
  obtain e7 where e7: "calculate_entropy p = Inr e7" "0 \<le> e7"
    using calculate_entropy_Inr by blast
  obtain hp where hp: "has_port url = Inr hp" using has_port_Inr by blast
  obtain t where t: "tld url = Inr t" using tld_Inr by blast
  have h0: "item (py_split (host url) '':'') 0 = Inr (hd (py_split (host url) '':''))"
    by (rule item_first) (rule py_split_nonempty)
  have z: "replicate 15 (0::real) = [0, 0, 0, 0, 0, 0, 0, 0, 0, 0, 0, 0, 0, 0, 0]"
    by (simp add: eval_nat_numeral)
  have "extract_features url = Inr (feature_list url p e6 e7 hp t)"
    by (simp add: extract_features_def bind_result_def p e6 e7 hp t h0 z Let_def
          eval_nat_numeral feature_list_def)
  then show ?thesis using p e6 e7 hp t by blast
qed

lemma subdomain_count_nonneg: "0 \<le> subdomain_count url"
  by (simp add: subdomain_count_def)

lemma query_count_nonneg: "0 \<le> query_count url"
  using py_count_nonneg [of "path_and_query url" "''&''"] by (simp add: query_count_def)

text \<open>
  Claim C1. For every input string \<open>extract_features\<close> returns (it raises nothing),
  the array it returns has exactly 15 entries, and every entry lies between 0 and 1.
\<close>

theorem extract_features_unit_interval:
  "\<exists>fs. extract_features url = Inr fs \<and> length fs = 15 \<and> (\<forall>x\<in>set fs. 0 \<le> x \<and> x \<le> 1)"
proof -
  obtain p e6 e7 hp t where e: "0 \<le> e6" "0 \<le> e7" and
    r: "extract_features url = Inr (feature_list url p e6 e7 hp t)"
    using extract_features_result [of url] by blast
  show ?thesis
    unfolding r feature_list_def
    using e subdomain_count_nonneg [of url] query_count_nonneg [of url]
      py_count_nonneg [of url "''.''"] py_count_nonneg [of url "''-''"]
    by simp
qed

theorem extract_features_unit_interval_witness:
  "\<exists>fs. extract_features ''http://192.168.1.1/login.php'' = Inr fs \<and> length fs = 15 \<and>
     list_all (\<lambda>x. 0 \<le> x \<and> x \<le> 1) fs"
  using extract_features_unit_interval [of "''http://192.168.1.1/login.php''"]
  by (simp add: list_all_iff)

lemma feature_result:
  assumes "extract_features url = Inr (feature_list url p e6 e7 hp t)" "0 \<le> i" "i < 15"
  shows "feature url i = Inr (feature_list url p e6 e7 hp t ! nat i)"
proof -
  have "length (feature_list url p e6 e7 hp t) = 15" by (simp add: feature_list_def)
  then show ?thesis using assms by (simp add: feature_def bind_result_def item_def)
qed

text \<open>
  Claim C10. For every input string, the entries 4 (HTTPS), 5 (IP host), 9 (at sign),
  12 (port), 13 (shortener) and 14 (suspicious top-level domain) of the returned array
  are each exactly 0 or exactly 1.
\<close>

theorem binary_features:
  "\<forall>i\<in>{4, 5, 9, 12, 13, 14}. feature url i = Inr 0 \<or> feature url i = Inr 1"
proof -
  obtain p e6 e7 hp t where
    r: "extract_features url = Inr (feature_list url p e6 e7 hp t)"
    using extract_features_result [of url] by blast
  have "feature url 4 = Inr 0 \<or> feature url 4 = Inr 1"
    by (simp add: feature_result [OF r] feature_list_def)
  moreover have "feature url 5 = Inr 0 \<or> feature url 5 = Inr 1"
    by (simp add: feature_result [OF r] feature_list_def)
  moreover have "feature url 9 = Inr 0 \<or> feature url 9 = Inr 1"
    by (simp add: feature_result [OF r] feature_list_def)
  moreover have "feature url 12 = Inr 0 \<or> feature url 12 = Inr 1"
    by (simp add: feature_result [OF r] feature_list_def)
  moreover have "feature url 13 = Inr 0 \<or> feature url 13 = Inr 1"
    by (simp add: feature_result [OF r] feature_list_def)
  moreover have "feature url 14 = Inr 0 \<or> feature url 14 = Inr 1"
    by (simp add: feature_result [OF r] feature_list_def)
  ultimately show ?thesis by simp
qed

theorem binary_features_witness:
  "(feature ''https://bit.ly/abc123'' 4 = Inr 0 \<or> feature ''https://bit.ly/abc123'' 4 = Inr 1) \<and>
   (feature ''https://bit.ly/abc123'' 13 = Inr 0 \<or> feature ''https://bit.ly/abc123'' 13 = Inr 1)"
  using binary_features [of "''https://bit.ly/abc123''"] by simp

section \<open>The IP feature\<close>

lemma hd_split_from_char:
  "hd (split_from cur s [c]) = cur @ takeWhile (\<lambda>x. x \<noteq> c) s"
proof (induction s arbitrary: cur)
  case Nil
  show ?case by (subst split_from.simps) simp
next
  case (Cons a s)
  show ?case
  proof (cases "a = c")
    case True
    then show ?thesis by (subst split_from.simps) simp
  next
    case False
    then show ?thesis by (subst split_from.simps) (simp add: Cons.IH)
  qed
qed

lemma hd_py_split_char: "hd (py_split s [c]) = takeWhile (\<lambda>x. x \<noteq> c) s"
  by (simp add: py_split_def hd_split_from_char)

lemma feature_5:
  "feature url 5 =
     Inr (if re_match ip_pattern (takeWhile (\<lambda>c. c \<noteq> CHR '':'') (host url)) then 1 else 0)"
proof -
  obtain p e6 e7 hp t where r: "extract_features url = Inr (feature_list url p e6 e7 hp t)"
    using extract_features_result [of url] by blast
  show ?thesis
    by (simp add: feature_result [OF r] feature_list_def hd_py_split_char)
qed

lemma ip_host_example:
  "re_match ip_pattern (takeWhile (\<lambda>c. c \<noteq> CHR '':'') (host ''http://192.168.1.1/x''))"
  by code_simp

lemma name_host_example:
  "\<not> re_match ip_pattern (takeWhile (\<lambda>c. c \<noteq> CHR '':'') (host ''http://example.com''))"
  by code_simp

lemma userinfo_host_first_colon:
  "re_match ip_pattern (takeWhile (\<lambda>c. c \<noteq> CHR '':'') (host ''http://1.2.3.4:a@evil.com:80/x''))"
  by code_simp

lemma userinfo_host_last_colon:
  "\<not> re_match ip_pattern (strip_trailing_port_spec (host ''http://1.2.3.4:a@evil.com:80/x''))"
  by code_simp

text \<open>
  Claim C6, as the code has it. For every URL the entry 5 is 1 exactly when the host,
  cut at its first colon, matches the pattern of four groups of one to three digits
  separated by dots, and 0 otherwise. The entry is 1 for \<open>http://192.168.1.1/x\<close> and 0
  for \<open>http://example.com\<close>.
\<close>

theorem ip_feature_first_colon:
  "feature url 5 =
     Inr (if re_match ip_pattern (takeWhile (\<lambda>c. c \<noteq> CHR '':'') (host url)) then 1 else 0) \<and>
   feature ''http://192.168.1.1/x'' 5 = Inr 1 \<and>
   feature ''http://example.com'' 5 = Inr 0"
  using ip_host_example name_host_example by (simp add: feature_5)

theorem ip_feature_first_colon_witness:
  "feature ''http://192.168.1.1:8080/x'' 5 = Inr 1"
proof -
  have "re_match ip_pattern (takeWhile (\<lambda>c. c \<noteq> CHR '':'') (host ''http://192.168.1.1:8080/x''))"
    by code_simp
  then show ?thesis
    using ip_feature_first_colon [of "''http://192.168.1.1:8080/x''"] by simp
qed

text \<open>
  The claim as stated, with the port taken after the last colon, fails on a URL with
  user information: the host of \<open>http://1.2.3.4:a@evil.com:80/x\<close> without what follows
  its last colon is \<open>1.2.3.4:a@evil.com\<close>, which does not match the pattern, and yet
  the entry 5 is 1.
\<close>

theorem ip_feature_last_colon_counterexample:
  "feature ''http://1.2.3.4:a@evil.com:80/x'' 5 = Inr 1 \<and>
   \<not> re_match ip_pattern (strip_trailing_port_spec (host ''http://1.2.3.4:a@evil.com:80/x''))"
proof -
  have "feature ''http://1.2.3.4:a@evil.com:80/x'' 5 = Inr 1"
    unfolding feature_5 using userinfo_host_first_colon by (simp only: if_True)
  then show ?thesis using userinfo_host_last_colon by blast
qed

section \<open>The scheme prefix\<close>

lemma py_replace_absent:
  "old \<noteq> [] \<Longrightarrow> \<not> contains old s \<Longrightarrow> py_replace s old new = s"
proof (induction s)
  case Nil
  then show ?case by (subst py_replace.simps) simp
next
  case (Cons a s)
  then have "\<not> startswith (a # s) old" "\<not> contains old s" by simp_all
  then show ?case using Cons by (subst py_replace.simps) simp
qed

lemma py_replace_prefix:
  "old \<noteq> [] \<Longrightarrow> py_replace (old @ s) old [] = py_replace s old []"
  by (subst py_replace.simps) (simp add: startswith_iff)

lemma startswith_append: "startswith s p \<Longrightarrow> s = p @ drop (length p) s"
  by (metis append_take_drop_id startswith_iff)

lemma no_https_in_http:
  "contains ''https://'' (''http://'' @ s) = contains ''https://'' s"
  by simp

text \<open>
  Claim C2, as the code has it. \<open>clean_url\<close> is the URL after two calls of \<open>replace\<close>,
  which delete the occurrences of \<open>https://\<close> and then those of \<open>http://\<close>, wherever
  they stand. It is the URL without one leading \<open>https://\<close> or \<open>http://\<close> whenever
  what follows that prefix (the whole URL when it has neither prefix) holds neither of
  the two literals.
\<close>

theorem clean_url_strips_prefix:
  assumes "\<not> contains ''https://'' (strip_scheme_prefix_spec url)"
    and "\<not> contains ''http://'' (strip_scheme_prefix_spec url)"
  shows "clean_url url = strip_scheme_prefix_spec url"
proof (cases "startswith url ''https://''")
  case True
  have "length ''https://'' = 8" by simp
  then have u: "url = ''https://'' @ drop 8 url"
    using startswith_append [OF True] by (simp only:)
  have s: "strip_scheme_prefix_spec url = drop 8 url"
    using True by (simp add: strip_scheme_prefix_spec_def)
  have "py_replace url ''https://'' [] = py_replace (drop 8 url) ''https://'' []"
    by (subst u) (rule py_replace_prefix, simp)
  also have "\<dots> = drop 8 url"
    using assms(1) by (intro py_replace_absent) (simp_all add: s)
  finally have "clean_url url = py_replace (drop 8 url) ''http://'' []"
    by (simp add: clean_url_def)
  also have "\<dots> = drop 8 url"
    using assms(2) by (intro py_replace_absent) (simp_all add: s)
  finally show ?thesis by (simp add: s)
next
  case False
  show ?thesis
  proof (cases "startswith url ''http://''")
    case True
    have "length ''http://'' = 7" by simp
    then have u: "url = ''http://'' @ drop 7 url"
      using startswith_append [OF True] by (simp only:)
    have s: "strip_scheme_prefix_spec url = drop 7 url"
      using True False by (simp add: strip_scheme_prefix_spec_def)
    have "contains ''https://'' url = contains ''https://'' (drop 7 url)"
      by (subst u) (rule no_https_in_http)
    then have "\<not> contains ''https://'' url" using assms(1) by (simp add: s)
    then have "py_replace url ''https://'' [] = url"
      by (intro py_replace_absent) simp_all
    then have "clean_url url = py_replace url ''http://'' []"
      by (simp add: clean_url_def)
    also have "\<dots> = py_replace (drop 7 url) ''http://'' []"
      by (subst u) (rule py_replace_prefix, simp)
    also have "\<dots> = drop 7 url"
      using assms(2) by (intro py_replace_absent) (simp_all add: s)
    finally show ?thesis by (simp add: s)
  next
    case no_http: False
    have s: "strip_scheme_prefix_spec url = url"
      using False no_http by (simp add: strip_scheme_prefix_spec_def)
    have "py_replace url ''https://'' [] = url"
      using assms(1) by (intro py_replace_absent) (simp_all add: s)
    moreover have "py_replace url ''http://'' [] = url"
      using assms(2) by (intro py_replace_absent) (simp_all add: s)
    ultimately show ?thesis by (simp add: clean_url_def s)
  qed
qed

theorem clean_url_strips_prefix_witness:
  "clean_url ''https://www.google.com/search?q=test'' = ''www.google.com/search?q=test''"
proof -
  have a: "\<not> contains ''https://'' (strip_scheme_prefix_spec ''https://www.google.com/search?q=test'')"
    by code_simp
  have b: "\<not> contains ''http://'' (strip_scheme_prefix_spec ''https://www.google.com/search?q=test'')"
    by code_simp
  have c: "strip_scheme_prefix_spec ''https://www.google.com/search?q=test'' =
      ''www.google.com/search?q=test''"
    by code_simp
  show ?thesis using clean_url_strips_prefix [OF a b] by (simp only: c)
qed

text \<open>
  The claim as stated fails where a scheme literal occurs again further on: a URL
  carried in a query loses its scheme too, and after a leading \<open>https://\<close> a following
  \<open>http://\<close> is stripped as well.
\<close>

theorem clean_url_counterexample:
  "clean_url ''http://a.com/?u=http://b.com'' = ''a.com/?u=b.com'' \<and>
   strip_scheme_prefix_spec ''http://a.com/?u=http://b.com'' = ''a.com/?u=http://b.com'' \<and>
   clean_url ''https://http://x'' = ''x'' \<and>
   strip_scheme_prefix_spec ''https://http://x'' = ''http://x''"
  by code_simp

section \<open>Prediction\<close>

lemma dot_zeros: "dot (replicate n 0) v = 0"
proof (induction n arbitrary: v)
  case 0
  then show ?case by (simp add: dot_def)
next
  case (Suc n)
  then show ?case by (cases v) (simp_all add: dot_def)
qed

lemma sigmoid_zero: "sigmoid 0 = 1 / 2"
  by (simp add: sigmoid_def)

text \<open>
  Claim C7. On a model with 15 zero weights and zero bias, \<open>predict\<close> returns exactly
  one half for every vector of 15 features; and for every model and every vector,
  \<open>predict\<close> leaves the weights and the bias of the model as they were.
\<close>

theorem predict_zero_model:
  "(length v = 15 \<longrightarrow> fst (predict (init_model None 0) v) = Inr (1 / 2)) \<and>
   snd (predict m u) = m"
  by (simp add: predict_def init_model_def np_dot_vv_def bind_result_def dot_zeros sigmoid_zero)

theorem predict_zero_model_witness:
  "fst (predict (init_model None 0) [1, 1, 1, 1, 1, 1, 1, 1, 1, 1, 1, 1, 1, 1, 1]) = Inr (1 / 2)"
  using predict_zero_model [of "[1, 1, 1, 1, 1, 1, 1, 1, 1, 1, 1, 1, 1, 1, 1]"] by simp

section \<open>Export\<close>

lemma json_numbers_JNumber: "json_numbers (JList (map JNumber ws)) = Some ws"
  by (simp add: list_all_iff comp_def)

text \<open>
  Claim C8. The exported record has exactly the two fields \<open>weights\<close> and \<open>bias\<close>, in
  this order; \<open>weights\<close> holds the weights of the model in their order (15 numbers when
  the model has 15 weights) and \<open>bias\<close> holds its bias; and reading the record back
  gives a model with the same weights and bias.
\<close>

theorem to_json_round_trip:
  "map fst (to_json m) = [''weights'', ''bias''] \<and>
   map_of (to_json m) ''weights'' = Some (JList (map JNumber (weights m))) \<and>
   map_of (to_json m) ''bias'' = Some (JNumber (bias m)) \<and>
   (length (weights m) = 15 \<longrightarrow>
      (\<exists>js. map_of (to_json m) ''weights'' = Some (JList js) \<and> length js = 15)) \<and>
   read_model_spec (to_json m) = Some m"
  by (simp add: to_json_def read_model_spec_def json_numbers_JNumber init_model_def
        del: json_numbers.simps)

theorem to_json_round_trip_witness:
  "read_model_spec (to_json (init_model None 0)) = Some (init_model None 0) \<and>
   (\<exists>js. map_of (to_json (init_model None 0)) ''weights'' = Some (JList js) \<and> length js = 15)"
proof -
  have "length (weights (init_model None 0)) = 15" by (simp add: init_model_def)
  then show ?thesis using to_json_round_trip [of "init_model None 0"] by blast
qed

section \<open>Training: when an epoch fails\<close>

lemma np_sub_ok:
  assumes "length b = length a \<or> length b = 1"
  shows "\<exists>d. np_sub a b = Inr d \<and> length d = length a"
proof (cases "length a = length b")
  case True
  then show ?thesis by (simp add: np_sub_def)
next
  case False
  then have "length b = 1" using assms by auto
  then show ?thesis using False by (simp add: np_sub_def)
qed

lemma fit_epoch_no_rows:
  assumes "rows X = []" "length (weights m) = ncols X"
  shows "fit_epoch X y lr m = Inl ZeroDivisionError"
  using assms
  by (simp add: fit_epoch_def shape_def np_dot_mv_def bind_result_def true_div_def)

lemma fit_epoch_mismatch:
  assumes "rows X \<noteq> []" "length (weights m) = ncols X"
    and "length y \<noteq> length (rows X)" "length y \<noteq> 1"
  shows "fit_epoch X y lr m = Inl ValueError"
  using assms
  by (simp add: fit_epoch_def shape_def np_dot_mv_def bind_result_def true_div_def
      np_sub_def transpose_array_def Let_def)

text \<open>The epoch that succeeds, written out: \<open>err\<close> is \<open>predictions - y\<close>.\<close>

lemma fit_epoch_success:
  assumes "rows X \<noteq> []" "length (weights m) = ncols X"
    and "length y = length (rows X) \<or> length y = 1"
  shows "\<exists>err. np_sub (map sigmoid (map (\<lambda>v. v + bias m) (map (\<lambda>r. dot r (weights m)) (rows X)))) y
             = Inr err \<and> length err = length (rows X) \<and>
          fit_epoch X y lr m = Inr
            \<lparr>weights = map2 (-) (weights m)
                 (map (\<lambda>g. lr * g) (map (\<lambda>g. (1 / real (length (rows X))) * g)
                    (map (\<lambda>r. dot r err) (rows (transpose_array X))))),
             bias = bias m - lr * ((1 / real (length (rows X))) * sum_list err)\<rparr>"
proof -
  let ?p = "map sigmoid (map (\<lambda>v. v + bias m) (map (\<lambda>r. dot r (weights m)) (rows X)))"
  have lp: "length ?p = length (rows X)" by simp
  have "length y = length ?p \<or> length y = 1" using assms(3) by simp
  from np_sub_ok [OF this]
  obtain err where err: "np_sub ?p y = Inr err" and le: "length err = length (rows X)"
    by auto
  have n0: "int (length (rows X)) \<noteq> 0" using assms(1) by simp
  have "fit_epoch X y lr m = Inr
            \<lparr>weights = map2 (-) (weights m)
                 (map (\<lambda>g. lr * g) (map (\<lambda>g. (1 / real (length (rows X))) * g)
                    (map (\<lambda>r. dot r err) (rows (transpose_array X))))),
             bias = bias m - lr * ((1 / real (length (rows X))) * sum_list err)\<rparr>"
    using assms(2) n0 le err
    by (simp add: fit_epoch_def shape_def np_dot_mv_def bind_result_def true_div_def
        np_isub_def Let_def transpose_array_def comp_def)
  then show ?thesis using err le by blast
qed

lemma fit_epoch_keeps_length:
  assumes "fit_epoch X y lr m = Inr m'" "length (weights m) = ncols X"
  shows "length (weights m') = ncols X"
proof (cases "rows X = []")
  case True
  then show ?thesis using assms fit_epoch_no_rows [of X m y lr] by simp
next
  case False
  show ?thesis
  proof (cases "length y = length (rows X) \<or> length y = 1")
    case True
    from fit_epoch_success [OF False assms(2) True, of lr] assms(1)
    show ?thesis using assms(2) by (auto simp: transpose_array_def)
  next
    case no: False
    then show ?thesis using assms fit_epoch_mismatch [OF False assms(2), of y lr] by simp
  qed
qed

section \<open>Training: when \<open>fit\<close> fails\<close>

lemma fit_reset:
  "fit m X y e lr = fit_loop (nat e) X y lr \<lparr>weights = replicate (ncols X) 0, bias = 0\<rparr>"
proof -
  have eq: "m\<lparr>weights := replicate (ncols X) 0, bias := 0\<rparr> =
      \<lparr>weights = replicate (ncols X) 0, bias = 0\<rparr>"
    by (cases m) simp
  show ?thesis unfolding fit_def shape_def Let_def prod.case by (rule arg_cong [OF eq])
qed

lemma fit_loop_no_rows:
  assumes "rows X = []" "length (weights m) = ncols X"
  shows "fit_loop (Suc k) X y lr m = Inl ZeroDivisionError"
  by (simp add: fit_epoch_no_rows [OF assms] bind_result_def)

lemma fit_loop_mismatch:
  assumes "rows X \<noteq> []" "length (weights m) = ncols X"
    and "length y \<noteq> length (rows X)" "length y \<noteq> 1"
  shows "fit_loop (Suc k) X y lr m = Inl ValueError"
  by (simp add: fit_epoch_mismatch [OF assms] bind_result_def)

lemma fit_loop_success:
  assumes "rows X \<noteq> []" "length y = length (rows X) \<or> length y = 1"
  shows "length (weights m) = ncols X \<Longrightarrow>
         \<exists>m'. fit_loop k X y lr m = Inr m' \<and> length (weights m') = ncols X"
proof (induction k arbitrary: m)
  case 0
  then show ?case by simp
next
  case (Suc k)
  from fit_epoch_success [OF assms(1) Suc.prems assms(2), of lr]
  obtain m1 where m1: "fit_epoch X y lr m = Inr m1" by blast
  then have "length (weights m1) = ncols X"
    using Suc.prems by (rule fit_epoch_keeps_length)
  from Suc.IH [OF this] show ?case by (simp add: m1 bind_result_def)
qed

text \<open>
  Claim C9. When at least one epoch is run, \<open>fit\<close> fails on the division by the
  number of samples exactly when the feature matrix has no row: with zero rows it
  raises \<open>ZeroDivisionError\<close> instead of completing, and with at least one row the
  division never fails.
\<close>

theorem fit_needs_a_row:
  "1 \<le> e \<longrightarrow> (fit m X y e lr = Inl ZeroDivisionError \<longleftrightarrow> rows X = [])"
proof
  assume e: "1 \<le> e"
  then obtain k where k: "nat e = Suc k" by (cases "nat e") auto
  let ?m0 = "\<lparr>weights = replicate (ncols X) 0, bias = 0\<rparr>"
  have w: "length (weights ?m0) = ncols X" by simp
  show "fit m X y e lr = Inl ZeroDivisionError \<longleftrightarrow> rows X = []"
  proof (cases "rows X = []")
    case True
    then show ?thesis
      using fit_loop_no_rows [OF True w, of k y lr] by (simp add: fit_reset k)
  next
    case False
    show ?thesis
    proof (cases "length y = length (rows X) \<or> length y = 1")
      case True
      from fit_loop_success [OF False True w, of "Suc k" lr]
      show ?thesis using False by (auto simp: fit_reset k)
    next
      case no: False
      then have "fit_loop (Suc k) X y lr ?m0 = Inl ValueError"
        using fit_loop_mismatch [OF False w, of y k lr] by simp
      then show ?thesis using False by (simp add: fit_reset k)
    qed
  qed
qed

theorem fit_needs_a_row_witness:
  "fit (init_model None 0) \<lparr>ncols = 15, rows = []\<rparr> [] 1 (1 / 10) = Inl ZeroDivisionError"
  using fit_needs_a_row [of 1 "init_model None 0" "\<lparr>ncols = 15, rows = []\<rparr>" "[]" "1 / 10"]
  by simp

text \<open>
  Claim C3, as the code has it. \<open>fit\<close> checks no dimension itself. It takes the number
  of features from the matrix and sizes the weights to it, so a row length other than
  15 is accepted. With at least one row and at least one epoch it fails, with the
  \<open>ValueError\<close> of the array operations, exactly when the number of labels is neither
  the number of rows nor 1 (a single label is stretched over all rows). With no epoch
  to run it never fails.
\<close>

theorem fit_dimension_errors:
  "(rows X \<noteq> [] \<and> 1 \<le> e \<longrightarrow>
      (fit m X y e lr = Inl ValueError \<longleftrightarrow> length y \<noteq> length (rows X) \<and> length y \<noteq> 1)) \<and>
   (e \<le> 0 \<longrightarrow> fit m X y e lr = Inr \<lparr>weights = replicate (ncols X) 0, bias = 0\<rparr>) \<and>
   (\<forall>m'. fit m X y e lr = Inr m' \<longrightarrow> length (weights m') = ncols X)"
proof (intro conjI impI allI)
  let ?m0 = "\<lparr>weights = replicate (ncols X) 0, bias = 0\<rparr>"
  have w: "length (weights ?m0) = ncols X" by simp
  {
    assume a: "rows X \<noteq> [] \<and> 1 \<le> e"
    then obtain k where k: "nat e = Suc k" by (cases "nat e") auto
    from a have rows: "rows X \<noteq> []" by simp
    show "fit m X y e lr = Inl ValueError \<longleftrightarrow> length y \<noteq> length (rows X) \<and> length y \<noteq> 1"
    proof (cases "length y = length (rows X) \<or> length y = 1")
      case True
      from fit_loop_success [OF rows True w, of "Suc k" lr]
      show ?thesis using True by (auto simp: fit_reset k)
    next
      case False
      then have "fit_loop (Suc k) X y lr ?m0 = Inl ValueError"
        using fit_loop_mismatch [OF rows w, of y k lr] by simp
      then show ?thesis using False by (simp add: fit_reset k)
    qed
  next
    assume "e \<le> 0"
    then show "fit m X y e lr = Inr ?m0" by (simp add: fit_reset)
  next
    fix m' assume r: "fit m X y e lr = Inr m'"
    show "length (weights m') = ncols X"
    proof (cases "nat e")
      case 0
      then show ?thesis using r by (auto simp: fit_reset)
    next
      case (Suc k)
      show ?thesis
      proof (cases "rows X = []")
        case True
        then show ?thesis
          using r fit_loop_no_rows [OF True w, of k y lr] by (simp add: fit_reset Suc)
      next
        case False
        show ?thesis
        proof (cases "length y = length (rows X) \<or> length y = 1")
          case True
          from fit_loop_success [OF False True w, of "Suc k" lr]
          show ?thesis using r by (auto simp: fit_reset Suc)
        next
          case no: False
          then have "fit_loop (Suc k) X y lr ?m0 = Inl ValueError"
            using fit_loop_mismatch [OF False w, of y k lr] by simp
          then show ?thesis using r by (simp add: fit_reset Suc)
        qed
      qed
    qed
  }
qed

theorem fit_dimension_errors_witness:
  "fit (init_model None 0) \<lparr>ncols = 15, rows = [replicate 15 0, replicate 15 1]\<rparr> [0, 1, 1] 2 (1 / 2)
     = Inl ValueError \<and>
   fit (init_model None 0) \<lparr>ncols = 15, rows = [replicate 15 0, replicate 15 1]\<rparr> [0, 1, 1] 0 (1 / 2)
     = Inr \<lparr>weights = replicate 15 0, bias = 0\<rparr>"
proof -
  let ?X = "\<lparr>ncols = 15, rows = [replicate 15 0, replicate 15 1]\<rparr>"
  have a: "rows ?X \<noteq> [] \<and> (1::int) \<le> 2" by simp
  have b: "length [0, 1, 1 :: real] \<noteq> length (rows ?X) \<and> length [0, 1, 1 :: real] \<noteq> 1" by simp
  have "fit (init_model None 0) ?X [0, 1, 1] 2 (1 / 2) = Inl ValueError"
    using fit_dimension_errors [of ?X 2 "init_model None 0" "[0, 1, 1]" "1 / 2"] a b by blast
  moreover have "fit (init_model None 0) ?X [0, 1, 1] 0 (1 / 2) = Inr \<lparr>weights = replicate 15 0, bias = 0\<rparr>"
    using fit_dimension_errors [of ?X 0 "init_model None 0" "[0, 1, 1]" "1 / 2"] by simp
  ultimately show ?thesis by blast
qed

text \<open>
  The claim as stated fails in both of its cases: a matrix with rows of length 1 is
  fitted without an error (the weights get length 1), and so is a matrix with two rows
  of length 15 together with a single label.
\<close>

theorem fit_dimension_counterexample:
  "fit (init_model None 0) \<lparr>ncols = 1, rows = [[0]]\<rparr> [0] 1 1
     = Inr \<lparr>weights = [0], bias = - (1 / 2)\<rparr> \<and>
   fit (init_model None 0)
     \<lparr>ncols = 15, rows = [[0, 0, 0, 0, 0, 0, 0, 0, 0, 0, 0, 0, 0, 0, 0],
                           [0, 0, 0, 0, 0, 0, 0, 0, 0, 0, 0, 0, 0, 0, 0]]\<rparr> [0] 1 1
     = Inr \<lparr>weights = [0, 0, 0, 0, 0, 0, 0, 0, 0, 0, 0, 0, 0, 0, 0], bias = - (1 / 2)\<rparr>"
  by (simp add: fit_reset fit_epoch_def shape_def np_dot_mv_def bind_result_def true_div_def
      np_sub_def np_isub_def transpose_array_def dot_def sigmoid_def eval_nat_numeral
      upt_rec)

section \<open>Training: the epochs are gradient descent\<close>

lemma sum_list_nth: "sum_list xs = (\<Sum>i<length xs. xs ! i :: real)"
  by (simp add: sum_list_sum_nth atLeast0LessThan)

lemma dot_sum: "length a = length b \<Longrightarrow> dot a b = (\<Sum>j<length b. a ! j * b ! j)"
  by (simp add: dot_def sum_list_nth)

lemma np_sub_same_length: "length a = length b \<Longrightarrow> np_sub a b = Inr (map2 (-) a b)"
  by (simp add: np_sub_def)

lemma fit_epoch_is_gd_step:
  assumes rect: "rectangular X" and rows: "rows X \<noteq> []"
    and w: "length (weights m) = ncols X" and y: "length y = length (rows X)"
  shows "fit_epoch X y lr m = Inr (gd_step_spec X y lr m)"
proof -
  define n where "n = length (rows X)"
  define f where "f = ncols X"
  define errf where "errf i =
      1 / (1 + exp (- ((\<Sum>j<f. rows X ! i ! j * weights m ! j) + bias m))) - y ! i" for i
  let ?p = "map sigmoid (map (\<lambda>v. v + bias m) (map (\<lambda>r. dot r (weights m)) (rows X)))"
  from fit_epoch_success [OF rows w, of y lr] y
  obtain err where err: "np_sub ?p y = Inr err" and le: "length err = n"
    and epoch: "fit_epoch X y lr m = Inr
            \<lparr>weights = map2 (-) (weights m)
                 (map (\<lambda>g. lr * g) (map (\<lambda>g. (1 / real (length (rows X))) * g)
                    (map (\<lambda>r. dot r err) (rows (transpose_array X))))),
             bias = bias m - lr * ((1 / real (length (rows X))) * sum_list err)\<rparr>"
    unfolding n_def by blast
  have "length ?p = length y" using y by simp
  then have "np_sub ?p y = Inr (map2 (-) ?p y)" by (rule np_sub_same_length)
  then have err_eq: "err = map2 (-) ?p y" using err by simp
  have row_len: "length (rows X ! i) = f" if "i < n" for i
    using rect that by (simp add: rectangular_def list_all_length n_def f_def)
  have err_nth: "err ! i = errf i" if "i < n" for i
  proof -
    have "dot (rows X ! i) (weights m) = (\<Sum>j<f. rows X ! i ! j * weights m ! j)"
      using dot_sum [of "rows X ! i" "weights m"] row_len [OF that] w by (simp add: f_def)
    then show ?thesis
      using that y by (simp add: err_eq n_def errf_def sigmoid_def)
  qed
  have col: "dot (map (\<lambda>r. r ! j) (rows X)) err = (\<Sum>i<n. rows X ! i ! j * errf i)" for j
  proof -
    have "dot (map (\<lambda>r. r ! j) (rows X)) err = (\<Sum>i<n. map (\<lambda>r. r ! j) (rows X) ! i * err ! i)"
      using dot_sum [of "map (\<lambda>r. r ! j) (rows X)" err] le by (simp add: n_def)
    also have "\<dots> = (\<Sum>i<n. rows X ! i ! j * errf i)"
      by (rule sum.cong) (simp_all add: err_nth n_def)
    finally show ?thesis .
  qed
  have bias_sum: "sum_list err = (\<Sum>i<n. errf i)"
    unfolding sum_list_nth le by (rule sum.cong) (simp_all add: err_nth)
  have spec: "gd_step_spec X y lr m =
      \<lparr>weights = map (\<lambda>j. weights m ! j - lr * ((1 / real n) * (\<Sum>i<n. rows X ! i ! j * errf i)))
                    [0..<f],
       bias = bias m - lr * ((1 / real n) * (\<Sum>i<n. errf i))\<rparr>"
    by (simp add: gd_step_spec_def Let_def errf_def n_def f_def)
  have weights_eq: "map2 (-) (weights m)
                 (map (\<lambda>g. lr * g) (map (\<lambda>g. (1 / real (length (rows X))) * g)
                    (map (\<lambda>r. dot r err) (rows (transpose_array X))))) =
      map (\<lambda>j. weights m ! j - lr * ((1 / real n) * (\<Sum>i<n. rows X ! i ! j * errf i))) [0..<f]"
  proof (rule nth_equalityI)
    show "length (map2 (-) (weights m)
                 (map (\<lambda>g. lr * g) (map (\<lambda>g. (1 / real (length (rows X))) * g)
                    (map (\<lambda>r. dot r err) (rows (transpose_array X)))))) =
      length (map (\<lambda>j. weights m ! j - lr * ((1 / real n) * (\<Sum>i<n. rows X ! i ! j * errf i))) [0..<f])"
      using w by (simp add: transpose_array_def f_def)
  next
    fix j
    assume "j < length (map2 (-) (weights m)
                 (map (\<lambda>g. lr * g) (map (\<lambda>g. (1 / real (length (rows X))) * g)
                    (map (\<lambda>r. dot r err) (rows (transpose_array X))))))"
    then have j: "j < f" using w by (simp add: transpose_array_def f_def)
    then show "map2 (-) (weights m)
                 (map (\<lambda>g. lr * g) (map (\<lambda>g. (1 / real (length (rows X))) * g)
                    (map (\<lambda>r. dot r err) (rows (transpose_array X))))) ! j =
      map (\<lambda>j. weights m ! j - lr * ((1 / real n) * (\<Sum>i<n. rows X ! i ! j * errf i))) [0..<f] ! j"
      using w by (simp add: transpose_array_def f_def col n_def [symmetric])
  qed
  show ?thesis
    unfolding epoch spec weights_eq bias_sum by (simp add: n_def)
qed

lemma length_gd_step_spec: "length (weights (gd_step_spec X y lr m)) = ncols X"
  by (simp add: gd_step_spec_def Let_def)

lemma fit_loop_is_gd:
  assumes "rectangular X" "rows X \<noteq> []" "length y = length (rows X)"
  shows "length (weights m) = ncols X \<Longrightarrow>
         fit_loop k X y lr m = Inr ((gd_step_spec X y lr ^^ k) m)"
proof (induction k arbitrary: m)
  case 0
  then show ?case by simp
next
  case (Suc k)
  have "fit_loop (Suc k) X y lr m = fit_loop k X y lr (gd_step_spec X y lr m)"
    using fit_epoch_is_gd_step [OF assms(1,2) Suc.prems assms(3), of lr]
    by (simp add: bind_result_def)
  also have "\<dots> = Inr ((gd_step_spec X y lr ^^ k) (gd_step_spec X y lr m))"
    by (rule Suc.IH) (rule length_gd_step_spec)
  finally show ?case by (simp add: funpow_swap1)
qed

text \<open>
  Claim C4, as the code has it. For an \<open>n\<close>-by-15 feature matrix with at least one row,
  \<open>n\<close> labels, an epoch count \<open>e\<close> and a learning rate, \<open>fit\<close> returns, whatever the
  model held before, the model obtained from 15 zero weights and zero bias by exactly
  \<open>e\<close> iterations of the gradient step of the specification (none for \<open>e \<le> 0\<close>):
  nothing stops the loop early and the samples keep their order. Without any row the
  same holds when no epoch is run.
\<close>

theorem fit_is_gradient_descent:
  "rectangular X \<and> ncols X = 15 \<and> length y = length (rows X) \<and> (rows X \<noteq> [] \<or> e \<le> 0) \<longrightarrow>
     fit m X y e lr =
       Inr ((gd_step_spec X y lr ^^ nat e) \<lparr>weights = replicate 15 0, bias = 0\<rparr>)"
proof
  assume a: "rectangular X \<and> ncols X = 15 \<and> length y = length (rows X) \<and>
      (rows X \<noteq> [] \<or> e \<le> 0)"
  let ?m0 = "\<lparr>weights = replicate (ncols X) 0, bias = 0 :: real\<rparr>"
  have w: "length (weights ?m0) = ncols X" by simp
  have "fit_loop (nat e) X y lr ?m0 = Inr ((gd_step_spec X y lr ^^ nat e) ?m0)"
  proof (cases "rows X = []")
    case True
    then have "nat e = 0" using a by auto
    then show ?thesis by simp
  next
    case False
    show ?thesis
      using a by (intro fit_loop_is_gd [OF _ False _ w]) simp_all
  qed
  then show "fit m X y e lr =
       Inr ((gd_step_spec X y lr ^^ nat e) \<lparr>weights = replicate 15 0, bias = 0\<rparr>)"
    using a by (simp add: fit_reset)
qed

theorem fit_is_gradient_descent_witness:
  "fit (init_model None 0) \<lparr>ncols = 15, rows = [replicate 15 0, replicate 15 1]\<rparr> [0, 1] 2 (1 / 2) =
     Inr (gd_step_spec \<lparr>ncols = 15, rows = [replicate 15 0, replicate 15 1]\<rparr> [0, 1] (1 / 2)
           (gd_step_spec \<lparr>ncols = 15, rows = [replicate 15 0, replicate 15 1]\<rparr> [0, 1] (1 / 2)
              \<lparr>weights = replicate 15 0, bias = 0\<rparr>))"
proof -
  let ?X = "\<lparr>ncols = 15, rows = [replicate 15 0, replicate 15 1]\<rparr>"
  have a: "rectangular ?X \<and> ncols ?X = 15 \<and> length [0, 1 :: real] = length (rows ?X) \<and>
      (rows ?X \<noteq> [] \<or> (2::int) \<le> 0)"
    by (simp add: rectangular_def)
  have n: "nat 2 = Suc (Suc 0)" by simp
  show ?thesis
    using fit_is_gradient_descent [of ?X "[0, 1]" 2 "init_model None 0" "1 / 2"] a
    by (simp only: n funpow.simps comp_def id_def)
qed

text \<open>
  The claim as stated fails for a matrix without rows, which is an \<open>n\<close>-by-15 matrix
  with \<open>n\<close> labels for \<open>n = 0\<close>: with one epoch \<open>fit\<close> raises \<open>ZeroDivisionError\<close> in its
  first iteration and returns no model.
\<close>

theorem fit_no_rows_counterexample:
  "rectangular \<lparr>ncols = 15, rows = []\<rparr> \<and>
   fit (init_model None 0) \<lparr>ncols = 15, rows = []\<rparr> [] 1 (1 / 10) = Inl ZeroDivisionError"
  by (simp add: rectangular_def fit_reset fit_epoch_no_rows bind_result_def)

section \<open>Entropy in double precision: the results\<close>

subsection \<open>Rounding\<close>

lemma round_half_even_near:
  assumes "\<bar>y - real_of_int m\<bar> < 1 / 2"
  shows "round_half_even y = m"
proof (cases "real_of_int m \<le> y")
  case True
  then have f: "\<lfloor>y\<rfloor> = m" using assms by (intro floor_unique) linarith+
  show ?thesis using assms True by (simp add: round_half_even_def f Let_def)
next
  case False
  then have f: "\<lfloor>y\<rfloor> = m - 1" using assms by (intro floor_unique) (simp, linarith+)
  show ?thesis using assms False by (simp add: round_half_even_def f Let_def)
qed

lemma round_half_even_tie:
  "round_half_even (real_of_int m + 1 / 2) = (if even m then m else m + 1)"
proof -
  have f: "\<lfloor>real_of_int m + 1 / 2\<rfloor> = m" by (intro floor_unique) simp_all
  show ?thesis by (simp add: round_half_even_def f Let_def)
qed

lemma double_exponent:
  assumes "2 ^ 52 * 2 powr real_of_int e \<le> \<bar>x\<bar>" "\<bar>x\<bar> < 2 ^ 53 * 2 powr real_of_int e"
  shows "\<lfloor>log 2 \<bar>x\<bar>\<rfloor> - 52 = e"
proof -
  have pos: "0 < \<bar>x\<bar>" using assms(1) by (smt (verit) powr_gt_zero zero_less_power mult_pos_pos)
  have a: "(2::real) powr real_of_int (e + 52) = 2 ^ 52 * 2 powr real_of_int e"
    by (simp add: powr_add)
  have b: "(2::real) powr real_of_int (e + 52 + 1) = 2 ^ 53 * 2 powr real_of_int e"
    by (simp add: powr_add)
  have "\<lfloor>log 2 \<bar>x\<bar>\<rfloor> = e + 52 \<longleftrightarrow>
      2 powr real_of_int (e + 52) \<le> \<bar>x\<bar> \<and> \<bar>x\<bar> < 2 powr real_of_int (e + 52 + 1)"
    by (rule floor_log_eq_powr_iff [OF pos]) simp
  then have "\<lfloor>log 2 \<bar>x\<bar>\<rfloor> = e + 52"
    using assms unfolding a b by blast
  then show ?thesis by simp
qed

text \<open>A number within half a unit of \<open>m\<close> units rounds to \<open>m\<close> units; \<open>u\<close> is the unit
  in the last place of the binade of \<open>x\<close>.\<close>

lemma round_double_near:
  assumes u: "u = 2 powr real_of_int e"
    and range: "2 ^ 52 * u \<le> \<bar>x\<bar>" "\<bar>x\<bar> < 2 ^ 53 * u"
    and near: "\<bar>x - real_of_int m * u\<bar> < u / 2"
  shows "round_double x = real_of_int m * u"
proof -
  have upos: "0 < u" by (simp add: u)
  have x0: "x \<noteq> 0" using range(1) upos by (smt (verit) mult_pos_pos zero_less_power)
  have e: "\<lfloor>log 2 \<bar>x\<bar>\<rfloor> - 52 = e" using range unfolding u by (rule double_exponent)
  have "\<bar>x / u - real_of_int m\<bar> = \<bar>x - real_of_int m * u\<bar> / u"
    using upos by (simp add: field_simps abs_if)
  also have "\<dots> < 1 / 2" using near upos by (simp add: field_simps)
  finally have "round_half_even (x / u) = m" by (rule round_half_even_near)
  then show ?thesis using x0 by (simp add: round_double_def e Let_def u)
qed

lemma round_double_tie:
  assumes u: "u = 2 powr real_of_int e"
    and range: "2 ^ 52 * u \<le> \<bar>x\<bar>" "\<bar>x\<bar> < 2 ^ 53 * u"
    and tie: "x = (real_of_int m + 1 / 2) * u"
  shows "round_double x = real_of_int (if even m then m else m + 1) * u"
proof -
  have upos: "0 < u" by (simp add: u)
  have x0: "x \<noteq> 0" using range(1) upos by (smt (verit) mult_pos_pos zero_less_power)
  have e: "\<lfloor>log 2 \<bar>x\<bar>\<rfloor> - 52 = e" using range unfolding u by (rule double_exponent)
  have "x / u = real_of_int m + 1 / 2" using upos by (simp add: tie)
  then have "round_half_even (x / u) = (if even m then m else m + 1)"
    by (simp only: round_half_even_tie)
  then show ?thesis using x0 by (simp add: round_double_def e Let_def u del: of_int_add)
qed

lemma round_double_zero: "round_double 0 = 0"
  by (simp add: round_double_def)

lemma round_double_one: "round_double 1 = 1"
proof -
  have "round_double 1 = real_of_int (2 ^ 52) * (1 / 2 ^ 52)"
    by (rule round_double_near [where e = "- 52"]) (simp_all add: powr_minus_divide)
  then show ?thesis by simp
qed

lemma round_double_exact:
  assumes "\<bar>M\<bar> < 2 ^ 53"
  shows "round_double (real_of_int M * 2 powr real_of_int E) = real_of_int M * 2 powr real_of_int E"
proof (cases "M = 0")
  case True
  then show ?thesis by (simp add: round_double_def)
next
  case False
  define x where "x = real_of_int M * 2 powr real_of_int E"
  define e where "e = \<lfloor>log 2 \<bar>x\<bar>\<rfloor> - 52"
  have x0: "x \<noteq> 0" using False by (simp add: x_def)
  then have xpos: "0 < \<bar>x\<bar>" by simp
  have "real_of_int (e + 52) \<le> log 2 \<bar>x\<bar>" by (simp add: e_def)
  then have low: "2 powr real_of_int (e + 52) \<le> \<bar>x\<bar>"
    using xpos by (simp add: le_log_iff)
  have "\<bar>x\<bar> = real_of_int \<bar>M\<bar> * 2 powr real_of_int E"
    by (simp add: x_def abs_mult)
  also have "\<dots> < 2 ^ 53 * 2 powr real_of_int E"
    using assms by (intro mult_strict_right_mono) (simp_all add: of_int_less_iff [symmetric] del: of_int_less_iff)
  also have "\<dots> = 2 powr real_of_int (53 + E)"
    by (simp add: powr_add)
  finally have "2 powr real_of_int (e + 52) < (2::real) powr real_of_int (53 + E)"
    using low by linarith
  then have eE: "e \<le> E" by simp
  define K where "K = M * 2 ^ nat (E - e)"
  have "2 powr real_of_int E = 2 powr real_of_int (E - e) * (2::real) powr real_of_int e"
    by (simp add: powr_add [symmetric])
  moreover have "(2::real) powr real_of_int (E - e) = 2 ^ nat (E - e)"
    using eE powr_real_of_int [of "2::real" "E - e"] by (simp del: of_int_diff)
  ultimately have xK: "x = real_of_int K * 2 powr real_of_int e"
    by (simp add: x_def K_def)
  then have "x / 2 powr real_of_int e = real_of_int K" by simp
  moreover have "round_half_even (real_of_int K) = K"
    by (rule round_half_even_near) simp
  ultimately have "round_double x = real_of_int K * 2 powr real_of_int e"
    using x0 by (simp add: round_double_def e_def [symmetric] Let_def)
  then show ?thesis using xK by (simp add: x_def)
qed

lemma round_double_int: "\<bar>M\<bar> < 2 ^ 53 \<Longrightarrow> round_double (real_of_int M) = real_of_int M"
  using round_double_exact [of M 0] by simp

lemma round_double_dyadic:
  "\<bar>M\<bar> < 2 ^ 53 \<Longrightarrow> round_double (real_of_int M / 2 ^ j) = real_of_int M / 2 ^ j"
  using round_double_exact [of M "- int j"] by (simp add: powr_minus_divide powr_realpow)

subsection \<open>Powers of two are exact\<close>

lemma entropy_loop_double_step:
  assumes "len \<noteq> 0" "round_double (real_of_int c / real_of_int len) = p" "0 < p"
    and "double_log2 p = l" "round_double (p * l) = t" "round_double (e - t) = e'"
  shows "entropy_loop_double (c # cs) len e = entropy_loop_double cs len e'"
  using assms by (simp add: Let_def)

lemma equal_counts_values:
  assumes ne: "s \<noteq> []"
    and eq: "\<forall>a\<in>set s. \<forall>b\<in>set s. count_list s a = count_list s b"
  shows "\<exists>m. 0 < m \<and> length s = card (set s) * m \<and>
           dict_values (count_chars [] s) = replicate (card (set s)) (int m)"
proof -
  define m where "m = count_list s (hd s)"
  have hd: "hd s \<in> set s" using ne by simp
  have "count_list s (hd s) \<noteq> 0" using hd by (simp add: count_list_0_iff)
  then have m_pos: "0 < m" by (simp add: m_def)
  have all_m: "count_list s a = m" if "a \<in> set s" for a
    using eq hd that unfolding m_def by blast
  have "sum (count_list s) (set s) = length s"
    by (rule sum_count_set) simp_all
  moreover have "sum (count_list s) (set s) = sum (\<lambda>a. m) (set s)"
    by (rule sum.cong) (simp_all add: all_m)
  ultimately have len: "length s = card (set s) * m" by simp
  have "\<forall>c\<in>set (dict_values (count_chars [] s)). c = int m"
  proof
    fix c assume "c \<in> set (dict_values (count_chars [] s))"
    from count_chars_values [OF this] obtain a
      where "a \<in> set s" "c = int (count_list s a)" by blast
    then show "c = int m" by (simp add: all_m)
  qed
  then have "replicate (length (dict_values (count_chars [] s))) (int m) =
      dict_values (count_chars [] s)"
    by (rule replicate_length_same)
  then have "dict_values (count_chars [] s) = replicate (card (set s)) (int m)"
    by (simp only: length_count_chars_values)
  then show ?thesis using m_pos len by blast
qed

lemma entropy_loop_double_power_of_two:
  assumes m: "0 < m" and len: "len = int (2 ^ j * m)"
  shows "(i + r) * j < 2 ^ 53 \<Longrightarrow>
         entropy_loop_double (replicate r (int m)) len (real_of_int (int (i * j)) / 2 ^ j) =
         Inr (real_of_int (int ((i + r) * j)) / 2 ^ j)"
proof (induction r arbitrary: i)
  case 0
  then show ?case by simp
next
  case (Suc r)
  have len0: "len \<noteq> 0" using m by (simp add: len)
  have "real_of_int (int m) / real_of_int len = real_of_int 1 / 2 ^ j"
    using m by (simp add: len)
  then have p: "round_double (real_of_int (int m) / real_of_int len) = 1 / 2 ^ j"
    using round_double_dyadic [of 1 j] by simp
  have ppos: "(0::real) < 1 / 2 ^ j" by simp
  have j53: "j < 2 ^ 53" using Suc.prems
    by (metis add_Suc_right le_add2 less_le_trans mult.commute mult_le_mono2 mult_Suc_right
        le_add1 nat_less_le order.strict_trans1 Suc_le_eq zero_less_Suc le_trans mult_le_mono1)
  have "log 2 (1 / 2 ^ j) = real_of_int (- int j)"
    by (simp add: log_divide log_nat_power)
  then have l: "double_log2 (1 / 2 ^ j) = real_of_int (- int j)"
    using round_double_int [of "- int j"] j53 by (simp add: double_log2_def)
  have "1 / 2 ^ j * real_of_int (- int j) = real_of_int (- int j) / 2 ^ j" by simp
  then have t: "round_double (1 / 2 ^ j * real_of_int (- int j)) = real_of_int (- int j) / 2 ^ j"
    using round_double_dyadic [of "- int j" j] j53 by simp
  have ij: "(Suc i) * j < 2 ^ 53" using Suc.prems
    by (metis add_Suc_right add_Suc le_add1 less_le_trans mult_le_mono1 not_less order_refl
        le_less_trans)
  have sum: "real_of_int (int (i * j)) / 2 ^ j - real_of_int (- int j) / 2 ^ j =
      real_of_int (int (Suc i * j)) / 2 ^ j"
    by (simp add: field_simps)
  have "\<bar>int (Suc i * j)\<bar> < 2 ^ 53"
    using ij by (metis abs_of_nat of_nat_less_iff of_nat_numeral of_nat_power)
  then have "round_double (real_of_int (int (Suc i * j)) / 2 ^ j) =
      real_of_int (int (Suc i * j)) / 2 ^ j"
    by (rule round_double_dyadic)
  then have e': "round_double (real_of_int (int (i * j)) / 2 ^ j - real_of_int (- int j) / 2 ^ j) =
      real_of_int (int (Suc i * j)) / 2 ^ j"
    by (simp only: sum)
  have "entropy_loop_double (replicate (Suc r) (int m)) len (real_of_int (int (i * j)) / 2 ^ j) =
      entropy_loop_double (replicate r (int m)) len (real_of_int (int (Suc i * j)) / 2 ^ j)"
    unfolding replicate_Suc by (rule entropy_loop_double_step [OF len0 p ppos l t e'])
  also have "\<dots> = Inr (real_of_int (int ((Suc i + r) * j)) / 2 ^ j)"
    using Suc.prems by (intro Suc.IH) simp
  finally show ?case by simp
qed

lemma calculate_entropy_double_power_of_two:
  assumes ne: "s \<noteq> []"
    and eq: "\<forall>a\<in>set s. \<forall>b\<in>set s. count_list s a = count_list s b"
    and k: "card (set s) = 2 ^ j"
  shows "calculate_entropy_double s = Inr (real j)"
proof -
  from equal_counts_values [OF ne eq] obtain m where m: "0 < m"
    and len: "length s = 2 ^ j * m"
    and vals: "dict_values (count_chars [] s) = replicate (2 ^ j) (int m)"
    unfolding k by blast
  have "card (set s) \<le> card (UNIV :: char set)" by (intro card_mono) simp_all
  then have p8: "(2::nat) ^ j \<le> 2 ^ 8" by (simp add: k card_UNIV_char)
  then have j: "j \<le> 8"
    by (subst (asm) power_increasing_iff) simp_all
  have "2 ^ j * j \<le> 2 ^ 8 * (8::nat)"
    using p8 j by (rule mult_mono) simp_all
  then have small: "(0 + 2 ^ j) * j < 2 ^ 53" by simp
  have "entropy_loop_double (replicate (2 ^ j) (int m)) (int (2 ^ j * m))
          (real_of_int (int (0 * j)) / 2 ^ j) =
        Inr (real_of_int (int ((0 + 2 ^ j) * j)) / 2 ^ j)"
    using m refl small by (rule entropy_loop_double_power_of_two)
  then have "entropy_loop_double (replicate (2 ^ j) (int m)) (int (2 ^ j * m)) 0 = Inr (real j)"
    by simp
  then show ?thesis using ne by (simp add: calculate_entropy_double_def vals len)
qed

lemma calculate_entropy_double_repeated:
  assumes "1 \<le> n"
  shows "calculate_entropy_double (replicate n c) = Inr 0"
proof -
  have ne: "replicate n c \<noteq> []" using assms by auto
  have set: "set (replicate n c) = {c}" using assms by auto
  have "calculate_entropy_double (replicate n c) = Inr (real 0)"
    using ne by (rule calculate_entropy_double_power_of_two) (simp_all add: set)
  then show ?thesis by simp
qed

subsection \<open>Bounds for the natural logarithm\<close>

lemma exp_taylor_lower:
  fixes x :: real
  assumes "0 \<le> x"
  shows "(\<Sum>m<n. x ^ m / fact m) \<le> exp x"
proof -
  obtain t where "exp x = (\<Sum>m<n. x ^ m / fact m) + (exp t / fact n) * x ^ n"
    using Maclaurin_exp_le [of x n] by blast
  moreover have "0 \<le> (exp t / fact n) * x ^ n" using assms by simp
  ultimately show ?thesis by linarith
qed

lemma exp_taylor_upper:
  fixes x :: real
  assumes "0 \<le> x" "x \<le> 1"
  shows "exp x \<le> (\<Sum>m<n. x ^ m / fact m) + x ^ n / fact n * 3"
proof -
  obtain t where t: "\<bar>t\<bar> \<le> \<bar>x\<bar>"
    and e: "exp x = (\<Sum>m<n. x ^ m / fact m) + (exp t / fact n) * x ^ n"
    using Maclaurin_exp_le [of x n] by blast
  have "t \<le> 1" using t assms by linarith
  then have "exp t \<le> exp 1" by simp
  then have "exp t \<le> 3" using exp_le by linarith
  then have "exp t * (x ^ n / fact n) \<le> 3 * (x ^ n / fact n)"
    using assms by (intro mult_right_mono) simp_all
  then show ?thesis unfolding e by (simp add: field_simps)
qed

lemma horner_sum:
  "horner k n x r = (\<Sum>m<n. x ^ m * fact k / fact (k + m)) + x ^ n * fact k / fact (k + n) * r"
proof (induction n arbitrary: k)
  case 0
  then show ?case by simp
next
  case (Suc n)
  have shift: "(\<Sum>m<Suc n. x ^ m * fact k / fact (k + m)) =
      1 + (\<Sum>m<n. x ^ Suc m * fact k / fact (k + Suc m))"
    by (subst sum.lessThan_Suc_shift) simp
  have step: "x / real (Suc k) * (x ^ m * fact (Suc k) / fact (Suc k + m)) =
      x ^ Suc m * fact k / fact (k + Suc m)" for m
  proof -
    have "x / real (Suc k) * (x ^ m * fact (Suc k) / fact (Suc k + m)) =
        x / real (Suc k) * (x ^ m * (real (Suc k) * fact k) / fact (Suc (k + m)))"
      by (simp del: fact_Suc add: fact_Suc [of k])
    also have "\<dots> = x ^ Suc m * fact k / fact (Suc (k + m))"
      by (simp del: fact_Suc)
    finally show ?thesis by (simp del: fact_Suc)
  qed
  have "horner k (Suc n) x r =
      1 + x / real (Suc k) * ((\<Sum>m<n. x ^ m * fact (Suc k) / fact (Suc k + m)) +
        x ^ n * fact (Suc k) / fact (Suc k + n) * r)"
    by (simp only: horner.simps Suc.IH)
  also have "\<dots> = 1 + (\<Sum>m<n. x / real (Suc k) * (x ^ m * fact (Suc k) / fact (Suc k + m))) +
        x / real (Suc k) * (x ^ n * fact (Suc k) / fact (Suc k + n)) * r"
    by (simp add: distrib_left sum_distrib_left mult.assoc)
  also have "\<dots> = 1 + (\<Sum>m<n. x ^ Suc m * fact k / fact (k + Suc m)) +
        x ^ Suc n * fact k / fact (k + Suc n) * r"
    by (simp only: step)
  finally show ?case by (simp only: shift)
qed

lemma horner_exp: "horner 0 n x r = (\<Sum>m<n. x ^ m / fact m) + x ^ n / fact n * r"
  by (simp add: horner_sum)

lemma real_div_le: "0 < b \<Longrightarrow> real_of_int a / real_of_int b \<le> real_of_int (a div b) + 1"
  by (metis floor_divide_of_int_eq real_of_int_floor_add_one_ge)

lemma real_div_ge: "0 < b \<Longrightarrow> real_of_int (a div b) \<le> real_of_int a / real_of_int b"
  by (metis floor_divide_of_int_eq of_int_floor_le)

lemma horner_up_bound:
  assumes "0 < D" "0 \<le> X" "0 \<le> R"
  shows "0 \<le> horner_up k n D X R \<and>
     horner k n (real_of_int X / real_of_int D) (real_of_int R / real_of_int D)
       \<le> real_of_int (horner_up k n D X R) / real_of_int D"
proof (induction n arbitrary: k)
  case 0
  then show ?case using assms by simp
next
  case (Suc n)
  define H where "H = horner_up (Suc k) n D X R"
  define h where "h = horner (Suc k) n (real_of_int X / real_of_int D) (real_of_int R / real_of_int D)"
  have H: "0 \<le> H" and hH: "h \<le> real_of_int H / real_of_int D"
    using Suc.IH [of "Suc k"] by (simp_all add: H_def h_def)
  have b: "0 < int (Suc k) * D" using assms(1) by simp
  have nonneg: "0 \<le> (X * H) div (int (Suc k) * D)"
    using assms(2) H b by (simp add: pos_imp_zdiv_nonneg_iff)
  have "real_of_int X / real_of_int D / real (Suc k) * h
      \<le> real_of_int X / real_of_int D / real (Suc k) * (real_of_int H / real_of_int D)"
    using hH assms by (intro mult_left_mono) simp_all
  also have "\<dots> = (real_of_int (X * H) / real_of_int (int (Suc k) * D)) / real_of_int D"
    by simp
  also have "\<dots> \<le> (real_of_int ((X * H) div (int (Suc k) * D)) + 1) / real_of_int D"
    using real_div_le [OF b, of "X * H"] assms(1) by (intro divide_right_mono) simp_all
  finally have "1 + real_of_int X / real_of_int D / real (Suc k) * h
      \<le> real_of_int (D + (X * H) div (int (Suc k) * D) + 1) / real_of_int D"
    using assms(1) by (simp add: field_simps)
  then show ?case using nonneg assms(1) by (simp add: H_def h_def)
qed

lemma horner_down_bound:
  assumes "0 < D" "0 \<le> X" "0 \<le> R"
  shows "0 \<le> horner_down k n D X R \<and>
     real_of_int (horner_down k n D X R) / real_of_int D
       \<le> horner k n (real_of_int X / real_of_int D) (real_of_int R / real_of_int D)"
proof (induction n arbitrary: k)
  case 0
  then show ?case using assms by simp
next
  case (Suc n)
  define H where "H = horner_down (Suc k) n D X R"
  define h where "h = horner (Suc k) n (real_of_int X / real_of_int D) (real_of_int R / real_of_int D)"
  have H: "0 \<le> H" and hH: "real_of_int H / real_of_int D \<le> h"
    using Suc.IH [of "Suc k"] by (simp_all add: H_def h_def)
  have b: "0 < int (Suc k) * D" using assms(1) by simp
  have nonneg: "0 \<le> (X * H) div (int (Suc k) * D)"
    using assms(2) H b by (simp add: pos_imp_zdiv_nonneg_iff)
  have "(real_of_int ((X * H) div (int (Suc k) * D))) / real_of_int D
      \<le> (real_of_int (X * H) / real_of_int (int (Suc k) * D)) / real_of_int D"
    using real_div_ge [OF b, of "X * H"] assms(1) by (intro divide_right_mono) simp_all
  also have "\<dots> = real_of_int X / real_of_int D / real (Suc k) * (real_of_int H / real_of_int D)"
    by simp
  also have "\<dots> \<le> real_of_int X / real_of_int D / real (Suc k) * h"
    using hH assms by (intro mult_left_mono) simp_all
  finally have "real_of_int (D + (X * H) div (int (Suc k) * D)) / real_of_int D
      \<le> 1 + real_of_int X / real_of_int D / real (Suc k) * h"
    using assms(1) by (simp add: field_simps)
  then show ?case using nonneg assms(1) by (simp add: H_def h_def)
qed

lemma ln_greater:
  assumes "0 < D" "0 \<le> A" "A \<le> D"
    and "real_of_int (horner_up 0 n D A (3 * D)) / real_of_int D < c"
  shows "real_of_int A / real_of_int D < ln c"
proof -
  let ?a = "real_of_int A / real_of_int D"
  have a: "0 \<le> ?a" "?a \<le> 1" using assms(1-3) by simp_all
  have "exp ?a \<le> horner 0 n ?a 3"
    using exp_taylor_upper [OF a, of n] by (simp add: horner_exp)
  also have "\<dots> = horner 0 n ?a (real_of_int (3 * D) / real_of_int D)"
    using assms(1) by simp
  also have "\<dots> \<le> real_of_int (horner_up 0 n D A (3 * D)) / real_of_int D"
    using horner_up_bound [of D A "3 * D" 0 n] assms(1,2) by simp
  finally have "exp ?a < c" using assms(4) by linarith
  then show ?thesis by (metis exp_gt_zero ln_exp ln_less_cancel_iff order_less_trans)
qed

lemma ln_less:
  assumes "0 < D" "0 \<le> B" "0 < c"
    and "c < real_of_int (horner_down 0 n D B 0) / real_of_int D"
  shows "ln c < real_of_int B / real_of_int D"
proof -
  let ?b = "real_of_int B / real_of_int D"
  have b: "0 \<le> ?b" using assms(1,2) by simp
  have "real_of_int (horner_down 0 n D B 0) / real_of_int D \<le> horner 0 n ?b 0"
    using horner_down_bound [of D B 0 0 n] assms(1,2) by simp
  also have "\<dots> \<le> exp ?b"
    using exp_taylor_lower [OF b, of n] by (simp add: horner_exp)
  finally have "c < exp ?b" using assms(4) by linarith
  then show ?thesis using assms(3) by (metis exp_gt_zero ln_exp ln_less_cancel_iff)
qed

lemma horner_up_numeral:
  "horner_up k (numeral n) D X R =
     D + (X * horner_up (Suc k) (pred_numeral n) D X R) div (int (Suc k) * D) + 1"
  by (simp add: numeral_eq_Suc)

lemma horner_down_numeral:
  "horner_down k (numeral n) D X R =
     D + (X * horner_down (Suc k) (pred_numeral n) D X R) div (int (Suc k) * D)"
  by (simp add: numeral_eq_Suc)

lemma ln_2_bounds:
  "6931471805599453074 / 10000000000000000000 < ln (2::real) \<and>
   ln (2::real) < 6931471805599453114 / 10000000000000000000"
proof
  have "real_of_int 6931471805599453074 / real_of_int 10000000000000000000 < ln 2"
    by (rule ln_greater [where n = 18]) (simp_all add: horner_up_numeral)
  then show "6931471805599453074 / 10000000000000000000 < ln (2::real)" by simp
  have "ln 2 < real_of_int 6931471805599453114 / real_of_int 10000000000000000000"
    by (rule ln_less [where n = 18]) (simp_all add: horner_down_numeral)
  then show "ln (2::real) < 6931471805599453114 / 10000000000000000000" by simp
qed

lemma ln_11_8_bounds:
  "3184537311185346138 / 10000000000000000000 < ln (11 / 8 :: real) \<and>
   ln (11 / 8 :: real) < 3184537311185346178 / 10000000000000000000"
proof
  have "real_of_int 3184537311185346138 / real_of_int 10000000000000000000 < ln (11 / 8)"
    by (rule ln_greater [where n = 14]) (simp_all add: horner_up_numeral)
  then show "3184537311185346138 / 10000000000000000000 < ln (11 / 8 :: real)" by simp
  have "ln (11 / 8) < real_of_int 3184537311185346178 / real_of_int 10000000000000000000"
    by (rule ln_less [where n = 14]) (simp_all add: horner_down_numeral)
  then show "ln (11 / 8 :: real) < 3184537311185346178 / 10000000000000000000" by simp
qed

lemma ln_q_bounds:
  "3746934494414107193 / 10000000000000000000 < ln (3275345183542179 / 2251799813685248 :: real) \<and>
   ln (3275345183542179 / 2251799813685248 :: real) < 3746934494414107233 / 10000000000000000000"
proof
  have "real_of_int 3746934494414107193 / real_of_int 10000000000000000000
      < ln (3275345183542179 / 2251799813685248)"
    by (rule ln_greater [where n = 15]) (simp_all add: horner_up_numeral)
  then show "3746934494414107193 / 10000000000000000000
      < ln (3275345183542179 / 2251799813685248 :: real)" by simp
  have "ln (3275345183542179 / 2251799813685248)
      < real_of_int 3746934494414107233 / real_of_int 10000000000000000000"
    by (rule ln_less [where n = 15]) (simp_all add: horner_down_numeral)
  then show "ln (3275345183542179 / 2251799813685248 :: real)
      < 3746934494414107233 / 10000000000000000000" by simp
qed

subsection \<open>Two rounded logarithms\<close>

lemma log_2_scaled_up: "0 < c \<Longrightarrow> log 2 (c * 2 ^ k) = real k + ln c / ln 2"
  by (simp add: log_def ln_mult ln_realpow add_divide_distrib)

lemma log_2_scaled_down: "0 < c \<Longrightarrow> log 2 (c / 2 ^ k) = ln c / ln 2 - real k"
  by (simp add: log_def ln_div ln_realpow diff_divide_distrib)

lemma ratio_bounds:
  fixes x y a b c d D :: real
  assumes "a / D < x" "x < b / D" "c / D < y" "y < d / D" "0 \<le> a" "0 < c" "0 < D"
  shows "a / d < x / y \<and> x / y < b / c"
proof -
  have cD: "0 < c / D" using assms by simp
  have y: "0 < y" using cD assms(3) by linarith
  have dD: "0 < d / D" using y assms(4) by linarith
  have x: "0 \<le> x" using assms(1,5,7) by (smt (verit) divide_nonneg_pos)
  have D: "D \<noteq> 0" using assms(7) by simp
  have e1: "(a / D) / (d / D) = a / d" and e2: "(b / D) / (c / D) = b / c"
    using D by simp_all
  have "(a / D) / (d / D) < x / y"
    using assms y x by (intro frac_less) simp_all
  then have l: "a / d < x / y" by (simp only: e1)
  have "x / y < (b / D) / (c / D)"
    using assms y x cD by (intro frac_less) simp_all
  then have u: "x / y < b / c" by (simp only: e2)
  show ?thesis using l u by blast
qed

lemma log_2_11_bounds:
  "3 + 3184537311185346138 / 6931471805599453114 < log 2 (11::real) \<and>
   log 2 (11::real) < 3 + 3184537311185346178 / 6931471805599453074"
proof -
  have "log 2 (11 / 8 * 2 ^ 3) = real 3 + ln (11 / 8) / ln (2::real)"
    by (rule log_2_scaled_up) simp
  then have eq: "log 2 (11::real) = 3 + ln (11 / 8) / ln 2" by simp
  have "3184537311185346138 / 6931471805599453114 < ln (11 / 8 :: real) / ln 2 \<and>
      ln (11 / 8 :: real) / ln 2 < 3184537311185346178 / 6931471805599453074"
    by (rule ratio_bounds [OF conjunct1 [OF ln_11_8_bounds] conjunct2 [OF ln_11_8_bounds]
          conjunct1 [OF ln_2_bounds] conjunct2 [OF ln_2_bounds]]) simp_all
  then show ?thesis unfolding eq by linarith
qed

lemma log_2_p_bounds:
  "3746934494414107193 / 6931471805599453114 - 4 < log 2 (3275345183542179 / 36028797018963968 :: real) \<and>
   log 2 (3275345183542179 / 36028797018963968 :: real) < 3746934494414107233 / 6931471805599453074 - 4"
proof -
  have "log 2 (3275345183542179 / 2251799813685248 / 2 ^ 4) =
      ln (3275345183542179 / 2251799813685248) / ln (2::real) - real 4"
    by (rule log_2_scaled_down) simp
  then have eq: "log 2 (3275345183542179 / 36028797018963968 :: real) =
      ln (3275345183542179 / 2251799813685248) / ln 2 - 4" by simp
  have "3746934494414107193 / 6931471805599453114
        < ln (3275345183542179 / 2251799813685248 :: real) / ln 2 \<and>
      ln (3275345183542179 / 2251799813685248 :: real) / ln 2
        < 3746934494414107233 / 6931471805599453074"
    by (rule ratio_bounds [OF conjunct1 [OF ln_q_bounds] conjunct2 [OF ln_q_bounds]
          conjunct1 [OF ln_2_bounds] conjunct2 [OF ln_2_bounds]]) simp_all
  then show ?thesis unfolding eq by linarith
qed

lemma ulp_51: "1 / 2251799813685248 = 2 powr real_of_int (- 51)"
  by (simp add: powr_minus_divide)

lemma double_log2_11: "double_log2 11 = 3894973737152161 / 1125899906842624"
proof -
  let ?x = "log 2 (11::real)"
  have b: "3 + 3184537311185346138 / 6931471805599453114 < ?x"
    "?x < 3 + 3184537311185346178 / 6931471805599453074"
    using log_2_11_bounds by simp_all
  have "round_double ?x = real_of_int 7789947474304322 * (1 / 2251799813685248)"
  proof (rule round_double_near [OF ulp_51])
    show "2 ^ 52 * (1 / 2251799813685248) \<le> \<bar>?x\<bar>" using b by simp
    show "\<bar>?x\<bar> < 2 ^ 53 * (1 / 2251799813685248)" using b by simp
    show "\<bar>?x - real_of_int 7789947474304322 * (1 / 2251799813685248)\<bar> < 1 / 2251799813685248 / 2"
      using b by simp
  qed
  then show ?thesis by (simp add: double_log2_def)
qed

lemma double_log2_p:
  "double_log2 (3275345183542179 / 36028797018963968) = - (3894973737152161 / 1125899906842624)"
proof -
  let ?x = "log 2 (3275345183542179 / 36028797018963968 :: real)"
  have b: "3746934494414107193 / 6931471805599453114 - 4 < ?x"
    "?x < 3746934494414107233 / 6931471805599453074 - 4"
    using log_2_p_bounds by simp_all
  have "round_double ?x = real_of_int (- 7789947474304322) * (1 / 2251799813685248)"
  proof (rule round_double_near [OF ulp_51])
    show "2 ^ 52 * (1 / 2251799813685248) \<le> \<bar>?x\<bar>" using b by simp
    show "\<bar>?x\<bar> < 2 ^ 53 * (1 / 2251799813685248)" using b by simp
    show "\<bar>?x - real_of_int (- 7789947474304322) * (1 / 2251799813685248)\<bar> < 1 / 2251799813685248 / 2"
      using b by simp
  qed
  then show ?thesis by (simp add: double_log2_def)
qed

subsection \<open>Eleven characters, each once\<close>

lemma ulp_56: "1 / 72057594037927936 = 2 powr real_of_int (- 56)"
  by (simp add: powr_minus_divide)

lemma ulp_54: "1 / 18014398509481984 = 2 powr real_of_int (- 54)"
  by (simp add: powr_minus_divide)

lemma ulp_53: "1 / 9007199254740992 = 2 powr real_of_int (- 53)"
  by (simp add: powr_minus_divide)

lemma ulp_52: "1 / 4503599627370496 = 2 powr real_of_int (- 52)"
  by (simp add: powr_minus_divide)

lemma double_p: "round_double (real_of_int 1 / real_of_int 11) = 3275345183542179 / 36028797018963968"
proof -
  have "round_double (real_of_int 1 / real_of_int 11) = real_of_int (6550690367084358) * (1 / 72057594037927936)"
    by (rule round_double_near [OF ulp_56]) simp_all
  then show ?thesis by simp
qed

lemma double_term: "round_double (3275345183542179 / 36028797018963968 * (- (3894973737152161 / 1125899906842624))) = - (2832708172474299 / 9007199254740992)"
proof -
  have "round_double (3275345183542179 / 36028797018963968 * (- (3894973737152161 / 1125899906842624))) = real_of_int (-5665416344948598) * (1 / 18014398509481984)"
    by (rule round_double_near [OF ulp_54]) simp_all
  then show ?thesis by simp
qed

lemma double_sum_1: "round_double (0 - (- (2832708172474299 / 9007199254740992))) = 2832708172474299 / 9007199254740992"
proof -
  have "round_double (0 - (- (2832708172474299 / 9007199254740992))) = real_of_int (5665416344948598) * (1 / 18014398509481984)"
    by (rule round_double_near [OF ulp_54]) simp_all
  then show ?thesis by simp
qed

lemma double_sum_2: "round_double (2832708172474299 / 9007199254740992 - (- (2832708172474299 / 9007199254740992))) = 2832708172474299 / 4503599627370496"
proof -
  have "round_double (2832708172474299 / 9007199254740992 - (- (2832708172474299 / 9007199254740992))) = real_of_int (5665416344948598) * (1 / 9007199254740992)"
    by (rule round_double_near [OF ulp_53]) simp_all
  then show ?thesis by simp
qed

lemma double_sum_3: "round_double (2832708172474299 / 4503599627370496 - (- (2832708172474299 / 9007199254740992))) = 8498124517422897 / 9007199254740992"
proof -
  have "round_double (2832708172474299 / 4503599627370496 - (- (2832708172474299 / 9007199254740992))) = real_of_int (8498124517422897) * (1 / 9007199254740992)"
    by (rule round_double_near [OF ulp_53]) simp_all
  then show ?thesis by simp
qed

lemma double_sum_4: "round_double (8498124517422897 / 9007199254740992 - (- (2832708172474299 / 9007199254740992))) = 2832708172474299 / 2251799813685248"
proof -
  have "round_double (8498124517422897 / 9007199254740992 - (- (2832708172474299 / 9007199254740992))) = real_of_int (5665416344948598) * (1 / 4503599627370496)"
    by (rule round_double_near [OF ulp_52]) simp_all
  then show ?thesis by simp
qed

lemma double_sum_5: "round_double (2832708172474299 / 2251799813685248 - (- (2832708172474299 / 9007199254740992))) = 1770442607796437 / 1125899906842624"
proof -
  have "round_double (2832708172474299 / 2251799813685248 - (- (2832708172474299 / 9007199254740992))) = real_of_int (if even (7081770431185747::int) then 7081770431185747 else 7081770431185747 + 1) * (1 / 4503599627370496)"
    by (rule round_double_tie [OF ulp_52]) simp_all
  then show ?thesis by simp
qed

lemma double_sum_6: "round_double (1770442607796437 / 1125899906842624 - (- (2832708172474299 / 9007199254740992))) = 4249062258711449 / 2251799813685248"
proof -
  have "round_double (1770442607796437 / 1125899906842624 - (- (2832708172474299 / 9007199254740992))) = real_of_int (if even (8498124517422897::int) then 8498124517422897 else 8498124517422897 + 1) * (1 / 4503599627370496)"
    by (rule round_double_tie [OF ulp_52]) simp_all
  then show ?thesis by simp
qed

lemma double_sum_7: "round_double (4249062258711449 / 2251799813685248 - (- (2832708172474299 / 9007199254740992))) = 619654912728753 / 281474976710656"
proof -
  have "round_double (4249062258711449 / 2251799813685248 - (- (2832708172474299 / 9007199254740992))) = real_of_int (4957239301830024) * (1 / 2251799813685248)"
    by (rule round_double_near [OF ulp_51]) simp_all
  then show ?thesis by simp
qed

lemma double_sum_8: "round_double (619654912728753 / 281474976710656 - (- (2832708172474299 / 9007199254740992))) = 5665416344948599 / 2251799813685248"
proof -
  have "round_double (619654912728753 / 281474976710656 - (- (2832708172474299 / 9007199254740992))) = real_of_int (5665416344948599) * (1 / 2251799813685248)"
    by (rule round_double_near [OF ulp_51]) simp_all
  then show ?thesis by simp
qed

lemma double_sum_9: "round_double (5665416344948599 / 2251799813685248 - (- (2832708172474299 / 9007199254740992))) = 3186796694033587 / 1125899906842624"
proof -
  have "round_double (5665416344948599 / 2251799813685248 - (- (2832708172474299 / 9007199254740992))) = real_of_int (6373593388067174) * (1 / 2251799813685248)"
    by (rule round_double_near [OF ulp_51]) simp_all
  then show ?thesis by simp
qed

lemma double_sum_10: "round_double (3186796694033587 / 1125899906842624 - (- (2832708172474299 / 9007199254740992))) = 7081770431185749 / 2251799813685248"
proof -
  have "round_double (3186796694033587 / 1125899906842624 - (- (2832708172474299 / 9007199254740992))) = real_of_int (7081770431185749) * (1 / 2251799813685248)"
    by (rule round_double_near [OF ulp_51]) simp_all
  then show ?thesis by simp
qed

lemma double_sum_11: "round_double (7081770431185749 / 2251799813685248 - (- (2832708172474299 / 9007199254740992))) = 1947486868576081 / 562949953421312"
proof -
  have "round_double (7081770431185749 / 2251799813685248 - (- (2832708172474299 / 9007199254740992))) = real_of_int (7789947474304324) * (1 / 2251799813685248)"
    by (rule round_double_near [OF ulp_51]) simp_all
  then show ?thesis by simp
qed

lemma counts_eleven:
  "dict_values (count_chars [] ''abcdefghijk'') = [1, 1, 1, 1, 1, 1, 1, 1, 1, 1, 1]"
  by code_simp

lemma entropy_double_eleven:
  "calculate_entropy_double ''abcdefghijk'' = Inr (1947486868576081 / 562949953421312)"
proof -
  note step = entropy_loop_double_step [where len = 11 and c = 1, OF _ double_p _ double_log2_p double_term]
  have "entropy_loop_double [1, 1, 1, 1, 1, 1, 1, 1, 1, 1, 1] 11 0 =
      entropy_loop_double [1, 1, 1, 1, 1, 1, 1, 1, 1, 1] 11 (2832708172474299 / 9007199254740992)"
    by (rule step [OF _ _ double_sum_1]) simp_all
  also have "\<dots> = entropy_loop_double [1, 1, 1, 1, 1, 1, 1, 1, 1] 11 (2832708172474299 / 4503599627370496)"
    by (rule step [OF _ _ double_sum_2]) simp_all
  also have "\<dots> = entropy_loop_double [1, 1, 1, 1, 1, 1, 1, 1] 11 (8498124517422897 / 9007199254740992)"
    by (rule step [OF _ _ double_sum_3]) simp_all
  also have "\<dots> = entropy_loop_double [1, 1, 1, 1, 1, 1, 1] 11 (2832708172474299 / 2251799813685248)"
    by (rule step [OF _ _ double_sum_4]) simp_all
  also have "\<dots> = entropy_loop_double [1, 1, 1, 1, 1, 1] 11 (1770442607796437 / 1125899906842624)"
    by (rule step [OF _ _ double_sum_5]) simp_all
  also have "\<dots> = entropy_loop_double [1, 1, 1, 1, 1] 11 (4249062258711449 / 2251799813685248)"
    by (rule step [OF _ _ double_sum_6]) simp_all
  also have "\<dots> = entropy_loop_double [1, 1, 1, 1] 11 (619654912728753 / 281474976710656)"
    by (rule step [OF _ _ double_sum_7]) simp_all
  also have "\<dots> = entropy_loop_double [1, 1, 1] 11 (5665416344948599 / 2251799813685248)"
    by (rule step [OF _ _ double_sum_8]) simp_all
  also have "\<dots> = entropy_loop_double [1, 1] 11 (3186796694033587 / 1125899906842624)"
    by (rule step [OF _ _ double_sum_9]) simp_all
  also have "\<dots> = entropy_loop_double [1] 11 (7081770431185749 / 2251799813685248)"
    by (rule step [OF _ _ double_sum_10]) simp_all
  also have "\<dots> = entropy_loop_double [] 11 (1947486868576081 / 562949953421312)"
    by (rule step [OF _ _ double_sum_11]) simp_all
  finally have chain: "entropy_loop_double [1, 1, 1, 1, 1, 1, 1, 1, 1, 1, 1] 11 0 = Inr (1947486868576081 / 562949953421312)"
    by (simp only: entropy_loop_double.simps)
  have ne: "''abcdefghijk'' \<noteq> []" by simp
  have len: "int (length ''abcdefghijk'') = 11" by simp
  show ?thesis
    unfolding calculate_entropy_double_def counts_eleven len using ne chain by (simp only: if_False)
qed

subsection \<open>The claim about the entropy\<close>

text \<open>
  Claim C5, as the code has it. In double precision, \<open>calculate_entropy\<close> returns 0 for
  the empty string, 0 for one character repeated \<open>n \<ge> 1\<close> times, and exactly the
  base-2 logarithm of \<open>k\<close> for a non-empty string whose \<open>k\<close> distinct characters all occur
  equally often when \<open>k\<close> is a power of two. For every \<open>k\<close> the sum it computes is the
  base-2 logarithm of \<open>k\<close> in exact arithmetic; in double precision each operation is
  rounded. The function raises nothing in any of these cases.
\<close>

theorem calculate_entropy_cases:
  "calculate_entropy_double [] = Inr 0 \<and>
   (1 \<le> n \<longrightarrow> calculate_entropy_double (replicate n c) = Inr 0) \<and>
   (s \<noteq> [] \<and> (\<forall>a\<in>set s. \<forall>b\<in>set s. count_list s a = count_list s b) \<and>
      card (set s) = 2 ^ j \<longrightarrow>
      calculate_entropy_double s = Inr (log 2 (real (card (set s))))) \<and>
   (s \<noteq> [] \<and> (\<forall>a\<in>set s. \<forall>b\<in>set s. count_list s a = count_list s b) \<longrightarrow>
      calculate_entropy s = Inr (log 2 (real (card (set s)))))"
proof (intro conjI impI)
  show "calculate_entropy_double [] = Inr 0"
    by (simp add: calculate_entropy_double_def)
next
  assume "1 \<le> n"
  then show "calculate_entropy_double (replicate n c) = Inr 0"
    by (rule calculate_entropy_double_repeated)
next
  assume a: "s \<noteq> [] \<and> (\<forall>a\<in>set s. \<forall>b\<in>set s. count_list s a = count_list s b) \<and>
      card (set s) = 2 ^ j"
  then have "calculate_entropy_double s = Inr (real j)"
    using calculate_entropy_double_power_of_two [of s j] by blast
  moreover have "log 2 (real (card (set s))) = real j"
    using a by (simp add: log_nat_power)
  ultimately show "calculate_entropy_double s = Inr (log 2 (real (card (set s))))"
    by simp
next
  assume "s \<noteq> [] \<and> (\<forall>a\<in>set s. \<forall>b\<in>set s. count_list s a = count_list s b)"
  then show "calculate_entropy s = Inr (log 2 (real (card (set s))))"
    using calculate_entropy_equal_counts by blast
qed

theorem calculate_entropy_cases_witness:
  "calculate_entropy_double [] = Inr 0 \<and>
   calculate_entropy_double ''aaa'' = Inr 0 \<and>
   calculate_entropy_double ''abba'' = Inr 1 \<and>
   calculate_entropy ''abba'' = Inr 1"
proof -
  have r: "replicate 3 CHR ''a'' = ''aaa''" by (simp add: numeral_3_eq_3)
  have set: "set ''abba'' = {CHR ''a'', CHR ''b''}" by auto
  then have c: "log 2 (real (card (set ''abba''))) = 1" by simp
  have k: "card (set ''abba'') = 2 ^ 1" using set by simp
  have h: "''abba'' \<noteq> [] \<and>
      (\<forall>a\<in>set ''abba''. \<forall>b\<in>set ''abba''. count_list ''abba'' a = count_list ''abba'' b)"
    by simp
  have n: "(1::nat) \<le> 3" by simp
  note t = calculate_entropy_cases [of 3 "CHR ''a''" "''abba''" 1]
  have "calculate_entropy_double (replicate 3 CHR ''a'') = Inr 0"
    using t n by blast
  moreover have "calculate_entropy_double ''abba'' = Inr (log 2 (real (card (set ''abba''))))"
    using t h k by blast
  moreover have "calculate_entropy ''abba'' = Inr (log 2 (real (card (set ''abba''))))"
    using t h by blast
  moreover have "calculate_entropy_double [] = Inr 0"
    using t by blast
  ultimately show ?thesis by (simp only: r c)
qed

text \<open>
  The claim as stated fails in double precision when \<open>k\<close> is not a power of two. The
  string \<open>abcdefghijk\<close> has 11 distinct characters, each once. The function returns
  \<open>7789947474304324 / 2^51\<close>, the double printed as 3.459431618637298, while
  \<open>log2(11)\<close> is \<open>7789947474304322 / 2^51\<close>, printed as 3.4594316186372973.
\<close>

theorem calculate_entropy_rounding_counterexample:
  "calculate_entropy_double ''abcdefghijk'' = Inr (1947486868576081 / 562949953421312) \<and>
   double_log2 11 = 3894973737152161 / 1125899906842624 \<and>
   calculate_entropy_double ''abcdefghijk'' \<noteq> Inr (double_log2 11)"
  by (simp add: entropy_double_eleven double_log2_11)

end
